theory Spec2Isabelle
  imports Complex_Main "HOL-Library.Log_Nat" "HOL-Library.Char_ord" "HOL-Library.List_Lexorder"
    "HOL-Library.Multiset" "HOL-Library.Code_Target_Numeral"
begin

section \<open>Python floats\<close>

text \<open>
  The amounts of the sales CLI and the arguments of \<open>math_utils\<close> are Python floats, that
  is IEEE 754 binary64 values. A finite value is kept as the rational number it denotes;
  the two infinities and NaN are separate constructors. The two zeros are identified:
  they compare equal in Python, and no sum that starts from \<open>0\<close> or \<open>0.0\<close> is ever \<open>-0.0\<close>.
  Every arithmetic operation computes the exact rational result and rounds it to the
  nearest binary64 value, ties to even (\<open>fl_round\<close>).
\<close>

datatype pyfloat = Fin rat | PInf | NInf | NaN

definition pow2 :: "int \<Rightarrow> rat" where
  "pow2 k = (if 0 \<le> k then of_int (2 ^ nat k) else 1 / of_int (2 ^ nat (- k)))"

text \<open>\<open>ilog2 a\<close> is the binary exponent of a positive rational: \<open>2^e \<le> a < 2^(e+1)\<close>.\<close>

definition ilog2 :: "rat \<Rightarrow> int" where
  "ilog2 a = (let (p, q) = quotient_of a; d = bitlen p - bitlen q
              in if pow2 d \<le> a then d else d - 1)"

definition round_half_even :: "rat \<Rightarrow> int" where
  "round_half_even a = (let f = \<lfloor>a\<rfloor>; r = a - of_int f
     in if r < 1 / 2 then f else if 1 / 2 < r then f + 1 else if even f then f else f + 1)"

text \<open>
  Rounding to binary64: 53 significant bits, the least exponent of the last place is
  \<open>-1074\<close> (subnormal numbers), and a rounded magnitude of \<open>2^1024\<close> or more is an infinity.
\<close>

definition fl_round :: "rat \<Rightarrow> pyfloat" where
  "fl_round x = (if x = 0 then Fin 0 else
     let a = \<bar>x\<bar>; e = ilog2 a; q = max (e - 52) (- 1074);
         y = of_int (round_half_even (a / pow2 q)) * pow2 q
     in if y \<noteq> 0 \<and> 1024 \<le> ilog2 y then (if 0 < x then PInf else NInf)
        else Fin (if 0 < x then y else - y))"

definition fl_add :: "pyfloat \<Rightarrow> pyfloat \<Rightarrow> pyfloat" where
  "fl_add a b = (case (a, b) of
       (Fin x, Fin y) \<Rightarrow> fl_round (x + y)
     | (NaN, _) \<Rightarrow> NaN
     | (_, NaN) \<Rightarrow> NaN
     | (PInf, NInf) \<Rightarrow> NaN
     | (NInf, PInf) \<Rightarrow> NaN
     | (PInf, _) \<Rightarrow> PInf
     | (_, PInf) \<Rightarrow> PInf
     | (NInf, _) \<Rightarrow> NInf
     | (_, NInf) \<Rightarrow> NInf)"

definition fl_neg :: "pyfloat \<Rightarrow> pyfloat" where
  "fl_neg a = (case a of Fin x \<Rightarrow> Fin (- x) | PInf \<Rightarrow> NInf | NInf \<Rightarrow> PInf | NaN \<Rightarrow> NaN)"

text \<open>Python's \<open>==\<close> and \<open><\<close> on floats: every comparison with NaN is false.\<close>

definition fl_eq :: "pyfloat \<Rightarrow> pyfloat \<Rightarrow> bool" where
  "fl_eq a b = (a \<noteq> NaN \<and> a = b)"

definition fl_lt :: "pyfloat \<Rightarrow> pyfloat \<Rightarrow> bool" where
  "fl_lt a b = (case (a, b) of
       (Fin x, Fin y) \<Rightarrow> x < y
     | (NaN, _) \<Rightarrow> False
     | (_, NaN) \<Rightarrow> False
     | (_, NInf) \<Rightarrow> False
     | (PInf, _) \<Rightarrow> False
     | (NInf, _) \<Rightarrow> True
     | (_, PInf) \<Rightarrow> True)"

datatype error = InputError string | ZeroDivisionError string | CsvError string

text \<open>
  Python's \<open>a / b\<close> on floats raises \<open>ZeroDivisionError\<close> for a zero divisor and
  otherwise returns the rounded quotient.
\<close>

definition fl_div :: "pyfloat \<Rightarrow> pyfloat \<Rightarrow> error + pyfloat" where
  "fl_div a b = (case (a, b) of
       (_, Fin y) \<Rightarrow>
         (if y = 0 then Inl (ZeroDivisionError ''float division by zero'')
          else (case a of
              Fin x \<Rightarrow> Inr (fl_round (x / y))
            | PInf \<Rightarrow> Inr (if 0 < y then PInf else NInf)
            | NInf \<Rightarrow> Inr (if 0 < y then NInf else PInf)
            | NaN \<Rightarrow> Inr NaN))
     | (Fin x, PInf) \<Rightarrow> Inr (Fin 0)
     | (Fin x, NInf) \<Rightarrow> Inr (Fin 0)
     | (_, _) \<Rightarrow> Inr NaN)"

section \<open>\<open>math_utils\<close>\<close>

definition add :: "pyfloat \<Rightarrow> pyfloat \<Rightarrow> pyfloat" where
  "add a b = fl_add a b"

definition divide_py :: "pyfloat \<Rightarrow> pyfloat \<Rightarrow> error + pyfloat" where
  "divide_py a b =
     (if fl_eq b (Fin 0) then Inl (ZeroDivisionError ''division by zero'')
      else fl_div a b)"

section \<open>Strings\<close>

text \<open>
  Text is modelled for ASCII input: a \<open>string\<close> is the list of the characters of a Python
  \<open>str\<close>. \<open>py_isspace\<close> lists the ASCII characters that \<open>str.strip()\<close> removes.
\<close>

definition LF :: char where "LF = CHR 0x0A"
definition CR :: char where "CR = CHR 0x0D"
definition SQ :: char where "SQ = CHR 0x27"
definition DQ :: char where "DQ = CHR 0x22"

definition py_isspace :: "char \<Rightarrow> bool" where
  "py_isspace c = (c \<in> set [CHR 0x09, CHR 0x0A, CHR 0x0B, CHR 0x0C, CHR 0x0D,
                             CHR 0x1C, CHR 0x1D, CHR 0x1E, CHR 0x1F, CHR 0x20])"

definition strip :: "string \<Rightarrow> string" where
  "strip s = rev (dropWhile py_isspace (rev (dropWhile py_isspace s)))"

fun join :: "string \<Rightarrow> string list \<Rightarrow> string" where
  "join sep [] = []"
| "join sep [x] = x"
| "join sep (x # y # ys) = x @ sep @ join sep (y # ys)"

definition is_digit :: "char \<Rightarrow> bool" where
  "is_digit c = (CHR ''0'' \<le> c \<and> c \<le> CHR ''9'')"

definition digit_val :: "char \<Rightarrow> nat" where
  "digit_val c = of_char c - 48"

definition nat_of_digits :: "string \<Rightarrow> nat" where
  "nat_of_digits s = foldl (\<lambda>n c. 10 * n + digit_val c) 0 s"

definition digit_char :: "nat \<Rightarrow> char" where
  "digit_char n = char_of (48 + n)"

fun str_nat :: "nat \<Rightarrow> string" where
  "str_nat n = (if n < 10 then [digit_char n] else str_nat (n div 10) @ [digit_char (n mod 10)])"

declare str_nat.simps [simp del]

text \<open>Zero padding to a width, as \<open>%02d\<close> and \<open>%04d\<close> do.\<close>

definition zfill :: "nat \<Rightarrow> string \<Rightarrow> string" where
  "zfill w s = replicate (w - length s) (CHR ''0'') @ s"

definition lower :: "string \<Rightarrow> string" where
  "lower s = map (\<lambda>c. if CHR ''A'' \<le> c \<and> c \<le> CHR ''Z''
                       then char_of (of_char c + (32::nat)) else c) s"

section \<open>\<open>float(str)\<close>\<close>

text \<open>
  Python's \<open>float\<close> applied to a string: underscores are allowed between two digits only
  and are removed; after an optional sign come \<open>inf\<close>, \<open>infinity\<close> or \<open>nan\<close> in any case,
  or a decimal number with an optional exponent. The whole string must be consumed. The
  value of a decimal number is its exact value rounded to binary64, so a decimal number
  that is too large becomes an infinity. \<open>None\<close> stands for \<open>ValueError\<close>. (\<open>float\<close> also
  removes white space at both ends; the CLI passes a string that \<open>str.strip()\<close> has
  stripped already, on which this changes nothing, so the model leaves it out.)
\<close>

fun strip_underscores :: "char \<Rightarrow> string \<Rightarrow> string option" where
  "strip_underscores prev [] = (if prev = CHR ''_'' then None else Some [])"
| "strip_underscores prev (c # cs) =
     (if c = CHR ''_'' then
        (if is_digit prev then strip_underscores c cs else None)
      else if prev = CHR ''_'' \<and> \<not> is_digit c then None
      else map_option ((#) c) (strip_underscores c cs))"

definition split_sign :: "string \<Rightarrow> bool \<times> string" where
  "split_sign s = (case s of
       [] \<Rightarrow> (False, [])
     | c # r \<Rightarrow> if c = CHR ''-'' then (True, r)
               else if c = CHR ''+'' then (False, r) else (False, s))"

definition pow10 :: "int \<Rightarrow> rat" where
  "pow10 k = (if 0 \<le> k then of_int (10 ^ nat k) else 1 / of_int (10 ^ nat (- k)))"

definition parse_exponent :: "string \<Rightarrow> int option" where
  "parse_exponent s = (case s of
       [] \<Rightarrow> Some 0
     | c # t \<Rightarrow>
         if c = CHR ''e'' \<or> c = CHR ''E'' then
           (let (neg, ds) = split_sign t
            in if ds \<noteq> [] \<and> list_all is_digit ds
               then Some (if neg then - int (nat_of_digits ds) else int (nat_of_digits ds))
               else None)
         else None)"

definition parse_decimal :: "string \<Rightarrow> rat option" where
  "parse_decimal s =
     (let ip = takeWhile is_digit s; r1 = dropWhile is_digit s;
          (fp, r2) = (case r1 of
              [] \<Rightarrow> ([], [])
            | c # t \<Rightarrow> if c = CHR ''.'' then (takeWhile is_digit t, dropWhile is_digit t)
                       else ([], r1))
      in if ip = [] \<and> fp = [] then None
         else (case parse_exponent r2 of
             None \<Rightarrow> None
           | Some e \<Rightarrow>
               Some (of_nat (nat_of_digits (ip @ fp)) * pow10 (e - int (length fp)))))"

definition float_of_string :: "string \<Rightarrow> pyfloat option" where
  "float_of_string s = (case strip_underscores (CHR 0x00) s of
       None \<Rightarrow> None
     | Some t \<Rightarrow>
        (let (neg, body) = split_sign t; lb = lower body
         in if lb = ''inf'' \<or> lb = ''infinity'' then Some (if neg then NInf else PInf)
            else if lb = ''nan'' then Some NaN
            else (case parse_decimal body of
                None \<Rightarrow> None
              | Some v \<Rightarrow> Some (fl_round (if neg then - v else v)))))"

text \<open>
  \<open>f"{x:.2f}"\<close>: the exact value rounded to two decimals, ties to even; a negative value
  keeps its sign even when it rounds to zero.
\<close>

definition format_2f :: "pyfloat \<Rightarrow> string" where
  "format_2f a = (case a of
       Fin x \<Rightarrow>
         (let n = nat (round_half_even (\<bar>x\<bar> * 100))
          in (if x < 0 then ''-'' else []) @ str_nat (n div 100) @ ''.''
             @ zfill 2 (str_nat (n mod 100)))
     | PInf \<Rightarrow> ''inf''
     | NInf \<Rightarrow> ''-inf''
     | NaN \<Rightarrow> ''nan'')"

section \<open>Dates\<close>

text \<open>
  \<open>datetime.date\<close> with \<open>date.fromisoformat\<close> for the format the CLI documents and names
  in its error message, \<open>YYYY-MM-DD\<close>: ten characters, a valid calendar date, years 1
  to 9999. (From Python 3.11 on \<open>fromisoformat\<close> accepts further ISO 8601 spellings;
  they are not modelled.)
\<close>

datatype date = Date (year: nat) (month: nat) (day: nat)

definition is_leap :: "nat \<Rightarrow> bool" where
  "is_leap y = (y mod 4 = 0 \<and> (y mod 100 \<noteq> 0 \<or> y mod 400 = 0))"

definition days_in_month :: "nat \<Rightarrow> nat \<Rightarrow> nat" where
  "days_in_month y m = (if m = 2 then (if is_leap y then 29 else 28)
                        else if m \<in> set [4, 6, 9, 11] then 30 else 31)"

definition date_fromisoformat :: "string \<Rightarrow> date option" where
  "date_fromisoformat s =
     (if length s = 10 \<and> list_all is_digit (take 4 s) \<and> s ! 4 = CHR ''-''
         \<and> list_all is_digit (take 2 (drop 5 s)) \<and> s ! 7 = CHR ''-''
         \<and> list_all is_digit (take 2 (drop 8 s))
      then (let y = nat_of_digits (take 4 s); m = nat_of_digits (take 2 (drop 5 s));
                d = nat_of_digits (take 2 (drop 8 s))
            in if 1 \<le> y \<and> 1 \<le> m \<and> m \<le> 12 \<and> 1 \<le> d \<and> d \<le> days_in_month y m
               then Some (Date y m d) else None)
      else None)"

definition isoformat :: "date \<Rightarrow> string" where
  "isoformat d = zfill 4 (str_nat (year d)) @ ''-'' @ zfill 2 (str_nat (month d)) @ ''-''
                 @ zfill 2 (str_nat (day d))"

definition date_lt :: "date \<Rightarrow> date \<Rightarrow> bool" where
  "date_lt a b = (year a < year b \<or> (year a = year b \<and>
                   (month a < month b \<or> (month a = month b \<and> day a < day b))))"

text \<open>\<open>min\<close> and \<open>max\<close> of a non-empty list keep the first of several equal extremes.\<close>

definition min_date :: "date \<Rightarrow> date list \<Rightarrow> date" where
  "min_date d ds = foldl (\<lambda>m x. if date_lt x m then x else m) d ds"

definition max_date :: "date \<Rightarrow> date list \<Rightarrow> date" where
  "max_date d ds = foldl (\<lambda>m x. if date_lt m x then x else m) d ds"

section \<open>Reading CSV: \<open>csv.reader\<close> and \<open>csv.DictReader\<close>\<close>

text \<open>
  A file opened with \<open>newline=""\<close> is iterated line by line; a line ends after \<open>\n\<close>,
  \<open>\r\<close> or \<open>\r\n\<close>, and keeps its terminator.
\<close>

fun file_lines :: "string \<Rightarrow> string \<Rightarrow> string list" where
  "file_lines cur [] = (if cur = [] then [] else [cur])"
| "file_lines cur [c] = [cur @ [c]]"
| "file_lines cur (c # d # cs) =
     (if c = LF then (cur @ [c]) # file_lines [] (d # cs)
      else if c = CR then
        (if d = LF then (cur @ [c, d]) # file_lines [] cs
         else (cur @ [c]) # file_lines [] (d # cs))
      else file_lines (cur @ [c]) (d # cs))"

text \<open>
  The reader of the \<open>excel\<close> dialect (delimiter \<open>,\<close>, quote character \<open>"\<close>, doubled quotes,
  no escape character, not strict), as the state machine of the \<open>_csv\<close> module. The end
  of a line is the input \<open>None\<close>. The only error this dialect can raise is for a character
  that follows a line break within one line.
\<close>

datatype csv_state =
  START_RECORD | START_FIELD | IN_FIELD | IN_QUOTED_FIELD | QUOTE_IN_QUOTED_FIELD | EAT_CRNL

datatype reader = Reader (rd_state: csv_state) (rd_fields: "string list") (rd_field: string)

definition parse_reset :: reader where
  "parse_reset = Reader START_RECORD [] []"

definition parse_save_field :: "reader \<Rightarrow> csv_state \<Rightarrow> reader" where
  "parse_save_field r st = Reader st (rd_fields r @ [rd_field r]) []"

definition parse_add_char :: "reader \<Rightarrow> char \<Rightarrow> csv_state \<Rightarrow> reader" where
  "parse_add_char r c st = Reader st (rd_fields r) (rd_field r @ [c])"

definition is_newline :: "char option \<Rightarrow> bool" where
  "is_newline c = (c = Some LF \<or> c = Some CR)"

definition after_eol :: "char option \<Rightarrow> csv_state" where
  "after_eol c = (if c = None then START_RECORD else EAT_CRNL)"

definition start_field :: "reader \<Rightarrow> char option \<Rightarrow> reader" where
  "start_field r c =
     (if is_newline c \<or> c = None then parse_save_field r (after_eol c)
      else if c = Some DQ then Reader IN_QUOTED_FIELD (rd_fields r) (rd_field r)
      else if c = Some CHR '','' then parse_save_field r START_FIELD
      else parse_add_char r (the c) IN_FIELD)"

definition parse_process_char :: "reader \<Rightarrow> char option \<Rightarrow> error + reader" where
  "parse_process_char r c = (case rd_state r of
       START_RECORD \<Rightarrow>
         (if c = None then Inr r
          else if is_newline c then Inr (Reader EAT_CRNL (rd_fields r) (rd_field r))
          else Inr (start_field r c))
     | START_FIELD \<Rightarrow> Inr (start_field r c)
     | IN_FIELD \<Rightarrow>
         (if is_newline c \<or> c = None then Inr (parse_save_field r (after_eol c))
          else if c = Some CHR '','' then Inr (parse_save_field r START_FIELD)
          else Inr (parse_add_char r (the c) IN_FIELD))
     | IN_QUOTED_FIELD \<Rightarrow>
         (if c = None then Inr r
          else if c = Some DQ then Inr (Reader QUOTE_IN_QUOTED_FIELD (rd_fields r) (rd_field r))
          else Inr (parse_add_char r (the c) IN_QUOTED_FIELD))
     | QUOTE_IN_QUOTED_FIELD \<Rightarrow>
         (if c = Some DQ then Inr (parse_add_char r DQ IN_QUOTED_FIELD)
          else if c = Some CHR '','' then Inr (parse_save_field r START_FIELD)
          else if is_newline c \<or> c = None then Inr (parse_save_field r (after_eol c))
          else Inr (parse_add_char r (the c) IN_FIELD))
     | EAT_CRNL \<Rightarrow>
         (if is_newline c then Inr r
          else if c = None then Inr (Reader START_RECORD (rd_fields r) (rd_field r))
          else Inl (CsvError ''new-line character seen in unquoted field'')))"

fun process_line :: "reader \<Rightarrow> string \<Rightarrow> error + reader" where
  "process_line r [] = parse_process_char r None"
| "process_line r (c # cs) =
     (case parse_process_char r (Some c) of Inl e \<Rightarrow> Inl e | Inr r' \<Rightarrow> process_line r' cs)"

text \<open>
  All the rows of the reader: a row is complete when a line leaves the machine in
  \<open>START_RECORD\<close>; at the end of the input a pending quoted field is still returned.
\<close>

fun csv_reader :: "reader \<Rightarrow> string list \<Rightarrow> error + string list list" where
  "csv_reader r [] =
     (if rd_field r \<noteq> [] \<or> rd_state r = IN_QUOTED_FIELD
      then Inr [rd_fields (parse_save_field r START_RECORD)] else Inr [])"
| "csv_reader r (l # ls) =
     (case process_line r l of
        Inl e \<Rightarrow> Inl e
      | Inr r' \<Rightarrow>
          if rd_state r' \<noteq> START_RECORD then csv_reader r' ls
          else (case csv_reader parse_reset ls of
              Inl e \<Rightarrow> Inl e
            | Inr rows \<Rightarrow> Inr (rd_fields r' # rows)))"

text \<open>
  \<open>DictReader\<close> takes the first row as the field names, skips empty rows, and maps each
  field name to the value at its position, a missing value being \<open>None\<close>; a later
  duplicate of a name wins. \<open>raw_get raw k\<close> is the source's \<open>(raw.get(k) or "")\<close>.
\<close>

definition dict_row :: "string list \<Rightarrow> string list \<Rightarrow> (string \<times> string option) list" where
  "dict_row fieldnames row =
     zip fieldnames (map Some row @ replicate (length fieldnames - length row) None)"

definition raw_get :: "(string \<times> string option) list \<Rightarrow> string \<Rightarrow> string" where
  "raw_get raw k = (case map_of (rev raw) k of Some (Some v) \<Rightarrow> v | _ \<Rightarrow> [])"

section \<open>\<open>sales_cli\<close>: rows and parsing\<close>

record Row =
  dt :: date
  sku :: string
  amount :: pyfloat

text \<open>\<open>REQUIRED_COLUMNS\<close>, kept in sorted order, so that filtering it is \<open>sorted(missing)\<close>.\<close>

definition REQUIRED_COLUMNS :: "string list" where
  "REQUIRED_COLUMNS = [''amount'', ''date'', ''sku'']"

text \<open>The loop of \<open>parse_rows\<close> over the rows of the \<open>DictReader\<close>, numbered from 2.\<close>

fun parse_loop :: "string list \<Rightarrow> nat \<Rightarrow> string list list \<Rightarrow> Row list \<Rightarrow> error + Row list" where
  "parse_loop fieldnames i [] rows = Inr rows"
| "parse_loop fieldnames i (r # rs) rows =
     (let raw = dict_row fieldnames r;
          dt_str = strip (raw_get raw ''date'');
          sku = strip (raw_get raw ''sku'');
          amt_str = strip (raw_get raw ''amount'')
      in if sku = [] then Inl (InputError (''line '' @ str_nat i @ '': sku must be non-empty''))
         else (case date_fromisoformat dt_str of
             None \<Rightarrow> Inl (InputError (''line '' @ str_nat i @ '': invalid date '' @ [SQ] @ dt_str
                                       @ [SQ] @ '' (YYYY-MM-DD)''))
           | Some d \<Rightarrow>
              (case float_of_string amt_str of
                 None \<Rightarrow> Inl (InputError (''line '' @ str_nat i @ '': invalid amount '' @ [SQ]
                                           @ amt_str @ [SQ]))
               | Some amt \<Rightarrow>
                   parse_loop fieldnames (i + 1) rs
                     (rows @ [\<lparr>dt = d, sku = sku, amount = amt\<rparr>]))))"

text \<open>
  \<open>parse_rows\<close>. The file system is a map from paths to file contents; a path that is not
  in the map does not exist.
\<close>

definition parse_rows :: "string \<Rightarrow> (string \<rightharpoonup> string) \<Rightarrow> error + Row list" where
  "parse_rows csv_path fs = (case fs csv_path of
       None \<Rightarrow> Inl (InputError (''file not found: '' @ csv_path))
     | Some content \<Rightarrow>
         if length content = 0 then Inr []
         else (case csv_reader parse_reset (file_lines [] content) of
             Inl e \<Rightarrow> Inl e
           | Inr [] \<Rightarrow>
               Inl (InputError ''missing header row with required columns: date, sku, amount'')
           | Inr (fieldnames # data) \<Rightarrow>
               (let header = set (map strip fieldnames);
                    missing = filter (\<lambda>c. c \<notin> header) REQUIRED_COLUMNS
                in if missing \<noteq> [] then
                     Inl (InputError (''missing required columns: '' @ join '', '' missing))
                   else parse_loop fieldnames 2 (filter (\<lambda>r. r \<noteq> []) data) [])))"

section \<open>\<open>sales_cli\<close>: aggregation\<close>

text \<open>
  A Python \<open>dict\<close> keeps its keys in insertion order: an association list in which
  assignment to a present key replaces the value in place and a new key goes to the end.
\<close>

definition dict_get :: "('k \<times> 'v) list \<Rightarrow> 'k \<Rightarrow> 'v \<Rightarrow> 'v" where
  "dict_get d k dflt = (case map_of d k of Some v \<Rightarrow> v | None \<Rightarrow> dflt)"

fun dict_set :: "('k \<times> 'v) list \<Rightarrow> 'k \<Rightarrow> 'v \<Rightarrow> ('k \<times> 'v) list" where
  "dict_set [] k v = [(k, v)]"
| "dict_set ((k', v') # d) k v = (if k' = k then (k', v) # d else (k', v') # dict_set d k v)"

text \<open>
  \<open>sorted(xs, key=...)\<close>: a stable sort that compares keys with \<open><\<close> only. It is modelled as
  a stable insertion sort, which returns what any stable sort returns when \<open><\<close> is a
  strict weak order on the keys, and what CPython returns for any two-element list.
\<close>

fun insort_py :: "('k \<Rightarrow> 'k \<Rightarrow> bool) \<Rightarrow> ('a \<Rightarrow> 'k) \<Rightarrow> 'a \<Rightarrow> 'a list \<Rightarrow> 'a list" where
  "insort_py lt key x [] = [x]"
| "insort_py lt key x (y # ys) =
     (if lt (key x) (key y) then x # y # ys else y # insort_py lt key x ys)"

definition sorted_py :: "('k \<Rightarrow> 'k \<Rightarrow> bool) \<Rightarrow> ('a \<Rightarrow> 'k) \<Rightarrow> 'a list \<Rightarrow> 'a list" where
  "sorted_py lt key xs = foldl (\<lambda>acc x. insort_py lt key x acc) [] xs"

text \<open>
  \<open><\<close> on the key tuples \<open>(-total, sku)\<close>: the first components decide unless they are
  \<open>==\<close>, then the strings decide.
\<close>

definition tuple_lt :: "pyfloat \<times> string \<Rightarrow> pyfloat \<times> string \<Rightarrow> bool" where
  "tuple_lt a b =
     (if \<not> fl_eq (fst a) (fst b) then fl_lt (fst a) (fst b)
      else if snd a \<noteq> snd b then snd a < snd b
      else False)"

definition totals_by_sku :: "Row list \<Rightarrow> (string \<times> pyfloat) list" where
  "totals_by_sku rows =
     foldl (\<lambda>totals r. dict_set totals (sku r) (fl_add (dict_get totals (sku r) (Fin 0)) (amount r)))
       [] rows"

definition aggregate_by_sku :: "Row list \<Rightarrow> (string \<times> pyfloat) list" where
  "aggregate_by_sku rows =
     sorted_py tuple_lt (\<lambda>kv. (fl_neg (snd kv), fst kv)) (totals_by_sku rows)"

definition totals_by_date :: "Row list \<Rightarrow> (date \<times> pyfloat) list" where
  "totals_by_date rows =
     foldl (\<lambda>totals r. dict_set totals (dt r) (fl_add (dict_get totals (dt r) (Fin 0)) (amount r)))
       [] rows"

definition aggregate_by_date :: "Row list \<Rightarrow> (date \<times> pyfloat) list" where
  "aggregate_by_date rows = sorted_py date_lt fst (totals_by_date rows)"

section \<open>\<open>sales_cli\<close>: output\<close>

text \<open>
  The built-in \<open>sum\<close>: additions from the left, starting from zero. (From Python 3.12 on
  \<open>sum\<close> compensates the rounding errors of float additions; the additions inside the
  two aggregations are plain float additions in every version.)
\<close>

definition py_sum :: "pyfloat list \<Rightarrow> pyfloat" where
  "py_sum xs = foldl fl_add (Fin 0) xs"

definition truncate_top :: "int option \<Rightarrow> 'a list \<Rightarrow> 'a list" where
  "truncate_top top_n xs = (case top_n of
       None \<Rightarrow> xs
     | Some n \<Rightarrow> if 0 \<le> n then take (nat n) xs else xs)"

definition format_output_lines :: "Row list \<Rightarrow> int option \<Rightarrow> bool \<Rightarrow> string list" where
  "format_output_lines rows top_n by_date =
     (let total = py_sum (map amount rows);
          lines = [''TOTAL,'' @ format_2f total, ''BY_SKU''];
          by_sku = truncate_top top_n (aggregate_by_sku rows);
          lines = lines @ map (\<lambda>(sku, amt). sku @ '','' @ format_2f amt) by_sku;
          lines = (if by_date
                   then lines @ [''BY_DATE'']
                        @ map (\<lambda>(dt, amt). isoformat dt @ '','' @ format_2f amt)
                            (aggregate_by_date rows)
                   else lines);
          drange = (case map dt rows of
                      [] \<Rightarrow> ''unknown''
                    | d # ds \<Rightarrow> isoformat (min_date d ds) @ ''..'' @ isoformat (max_date d ds))
      in lines @ [''DATE_RANGE,'' @ drange])"

definition format_output :: "Row list \<Rightarrow> int option \<Rightarrow> bool \<Rightarrow> string" where
  "format_output rows top_n by_date = join [LF] (format_output_lines rows top_n by_date)"

section \<open>\<open>sales_cli\<close>: \<open>main\<close>\<close>

text \<open>
  \<open>csv.writer\<close> of the \<open>excel\<close> dialect: a field is quoted when it contains the
  delimiter, the quote character or a line break; rows end with \<open>\r\n\<close>.
\<close>

definition csv_quote_field :: "string \<Rightarrow> string" where
  "csv_quote_field f =
     (if list_ex (\<lambda>c. c = CHR '','' \<or> c = DQ \<or> c = CR \<or> c = LF) f
      then [DQ] @ concat (map (\<lambda>c. if c = DQ then [DQ, DQ] else [c]) f) @ [DQ]
      else f)"

definition writerow :: "string list \<Rightarrow> string" where
  "writerow row = join '','' (map csv_quote_field row) @ [CR, LF]"

text \<open>
  The arguments after \<open>argparse\<close>, and what a run of \<open>main\<close> leaves: the exit code, the
  text printed to standard output and to standard error, and the file system.
\<close>

record args =
  ns_csv_path :: string
  ns_top :: "int option"
  ns_by_date :: bool
  ns_out :: "string option"

record run =
  code :: int
  stdout :: string
  stderr :: string
  files :: "string \<rightharpoonup> string"

definition export_rows :: "(string \<times> pyfloat) list \<Rightarrow> string list list" where
  "export_rows by_sku = [''sku'', ''amount''] # map (\<lambda>(sku, amt). [sku, format_2f amt]) by_sku"

text \<open>
  \<open>main\<close> catches \<open>InputError\<close> only; any other exception leaves \<open>main\<close> (\<open>Inl\<close>).
  Writing the export file always succeeds in this model of the file system.
\<close>

definition main :: "(string \<rightharpoonup> string) \<Rightarrow> args \<Rightarrow> error + run" where
  "main fs ns = (case parse_rows (ns_csv_path ns) fs of
       Inl (InputError e) \<Rightarrow>
         Inr \<lparr>code = 2, stdout = [], stderr = ''error: '' @ e @ [LF], files = fs\<rparr>
     | Inl e \<Rightarrow> Inl e
     | Inr rows \<Rightarrow>
         (let by_sku = aggregate_by_sku rows;
              top_n = (case ns_top ns of None \<Rightarrow> None | Some n \<Rightarrow> if 0 \<le> n then Some n else None);
              by_sku = (case top_n of None \<Rightarrow> by_sku | Some n \<Rightarrow> take (nat n) by_sku);
              fs' = (case ns_out ns of
                       None \<Rightarrow> fs
                     | Some p \<Rightarrow> if p = [] then fs
                                else fs(p \<mapsto> concat (map writerow (export_rows by_sku))))
          in Inr \<lparr>code = 0, stdout = format_output rows top_n (ns_by_date ns) @ [LF],
                  stderr = [], files = fs'\<rparr>))"

text \<open>The six records of the happy-path test.\<close>

definition happy_path_rows :: "Row list" where
  "happy_path_rows = [\<lparr>dt = Date 2024 6 1, sku = ''AAA'', amount = Fin 10\<rparr>,
      \<lparr>dt = Date 2024 6 2, sku = ''BBB'', amount = Fin (11 / 2)\<rparr>,
      \<lparr>dt = Date 2024 6 3, sku = ''AAA'', amount = Fin (5 / 2)\<rparr>,
      \<lparr>dt = Date 2024 6 3, sku = ''CCC'', amount = Fin 20\<rparr>,
      \<lparr>dt = Date 2024 6 5, sku = ''BBB'', amount = Fin 3\<rparr>,
      \<lparr>dt = Date 2024 6 6, sku = ''AAA'', amount = Fin 7\<rparr>]"

text \<open>The CSV file of the happy-path test.\<close>

definition happy_path_csv :: string where
  "happy_path_csv = ''date,sku,amount'' @ [LF] @ ''2024-06-01,AAA,10.0'' @ [LF]
     @ ''2024-06-02,BBB,5.5'' @ [LF] @ ''2024-06-03,AAA,2.5'' @ [LF] @ ''2024-06-03,CCC,20'' @ [LF]
     @ ''2024-06-05,BBB,3'' @ [LF] @ ''2024-06-06,AAA,7''"

text \<open>Two records, one of them with the amount NaN (the CSV field \<open>nan\<close>).\<close>

definition nan_rows :: "Row list" where
  "nan_rows = [\<lparr>dt = Date 2024 1 1, sku = ''A'', amount = NaN\<rparr>,
               \<lparr>dt = Date 2024 1 2, sku = ''B'', amount = Fin 1\<rparr>]"

text \<open>
  Amounts on a grid. \<open>emb e m\<close> is the float \<open>m * 2^e\<close>; \<open>mant e a\<close> is the integer \<open>m\<close> of a
  float on that grid. \<open>exact_rows e rows\<close> says that every amount is an integer multiple of
  \<open>2^e\<close> and that the absolute values of these integers sum to less than \<open>2^53\<close>: then no
  addition of the aggregation rounds.
\<close>

definition emb :: "int \<Rightarrow> int \<Rightarrow> pyfloat" where
  "emb e m = Fin (of_int m * pow2 e)"

definition mant :: "int \<Rightarrow> pyfloat \<Rightarrow> int" where
  "mant e a = (case a of Fin x \<Rightarrow> \<lfloor>x / pow2 e\<rfloor> | _ \<Rightarrow> 0)"

definition on_grid :: "int \<Rightarrow> pyfloat \<Rightarrow> bool" where
  "on_grid e a = (a = emb e (mant e a))"

definition exact_rows :: "int \<Rightarrow> Row list \<Rightarrow> bool" where
  "exact_rows e rows =
     (- 1074 \<le> e \<and> e \<le> 971 \<and> list_all (\<lambda>r. on_grid e (amount r)) rows
      \<and> (\<Sum>r\<leftarrow>rows. \<bar>mant e (amount r)\<bar>) < 2 ^ 53)"

text \<open>
  Three records on one date: \<open>2^53\<close> for SKU \<open>A\<close>, and twice \<open>1\<close> for SKU \<open>B\<close>.
\<close>

definition rounding_rows :: "Row list" where
  "rounding_rows = [\<lparr>dt = Date 2024 1 1, sku = ''A'', amount = Fin 9007199254740992\<rparr>,
                    \<lparr>dt = Date 2024 1 1, sku = ''B'', amount = Fin 1\<rparr>,
                    \<lparr>dt = Date 2024 1 1, sku = ''B'', amount = Fin 1\<rparr>]"

section \<open>Facts about rounding\<close>

lemma pow2_powi: "pow2 k = 2 powi k"
  by (simp add: pow2_def power_int_def field_simps)

lemma pow2_pos [simp]: "0 < pow2 k"
  by (simp add: pow2_powi)

lemma pow2_neq0 [simp]: "pow2 k \<noteq> 0"
  by (simp add: pow2_powi)

lemma pow2_add: "pow2 (a + b) = pow2 a * pow2 b"
  by (simp add: pow2_powi power_int_add)

lemma pow2_diff: "pow2 (a - b) = pow2 a / pow2 b"
  by (simp add: pow2_powi power_int_diff)

lemma pow2_mono: "a \<le> b \<Longrightarrow> pow2 a \<le> pow2 b"
  by (simp add: pow2_powi power_int_increasing)

lemma pow2_strict_mono: "a < b \<Longrightarrow> pow2 a < pow2 b"
  by (simp add: pow2_powi power_int_strict_increasing)

lemma pow2_nat: "pow2 (int n) = 2 ^ n"
  by (simp add: pow2_def)

lemma rat_bitlen_bounds:
  assumes "0 < a" "quotient_of a = (p, q)"
  shows "pow2 (bitlen p - bitlen q - 1) < a" "a < pow2 (bitlen p - bitlen q + 1)"
proof -
  have q: "0 < q" using assms(2) by (rule quotient_of_denom_pos)
  have a: "a = of_int p / of_int q" using assms(2) by (rule quotient_of_div)
  have p: "0 < p" using assms(1) q unfolding a by (simp add: zero_less_divide_iff)
  have bp: "0 < bitlen p" "0 < bitlen q" using p q bitlen_eq_zero_iff bitlen_nonneg
    by (metis less_le not_le)+
  from bitlen_bounds[OF p] have p1: "pow2 (bitlen p - 1) \<le> of_int p" and p2: "of_int p < pow2 (bitlen p)"
    using bp by (simp_all add: pow2_def flip: of_int_power)
  from bitlen_bounds[OF q] have q1: "pow2 (bitlen q - 1) \<le> of_int q" and q2: "of_int q < pow2 (bitlen q)"
    using bp by (simp_all add: pow2_def flip: of_int_power)
  have "pow2 (bitlen p - bitlen q - 1) = pow2 (bitlen p - 1) / pow2 (bitlen q)"
    by (simp flip: pow2_diff) (simp add: algebra_simps)
  also have "\<dots> \<le> of_int p / pow2 (bitlen q)" using p1 by (intro divide_right_mono) (simp_all add: less_imp_le)
  also have "\<dots> < of_int p / of_int q" using q2 p q by (intro divide_strict_left_mono) simp_all
  finally show "pow2 (bitlen p - bitlen q - 1) < a" unfolding a .
  have "of_int p / of_int q < pow2 (bitlen p) / of_int q" using p2 q by (intro divide_strict_right_mono) simp_all
  also have "\<dots> \<le> pow2 (bitlen p) / pow2 (bitlen q - 1)" using q1 q by (intro divide_left_mono) (simp_all add: less_imp_le)
  also have "\<dots> = pow2 (bitlen p - bitlen q + 1)"
    by (simp flip: pow2_diff) (simp add: algebra_simps)
  finally show "a < pow2 (bitlen p - bitlen q + 1)" unfolding a .
qed

lemma ilog2_lower: "0 < a \<Longrightarrow> pow2 (ilog2 a) \<le> a"
  using rat_bitlen_bounds(1)[of a] by (auto simp: ilog2_def Let_def split: prod.splits)

lemma ilog2_upper: "0 < a \<Longrightarrow> a < pow2 (ilog2 a + 1)"
  using rat_bitlen_bounds(2)[of a] by (auto simp: ilog2_def Let_def split: prod.splits)

lemma ilog2_eqI:
  assumes "pow2 e \<le> a" "a < pow2 (e + 1)"
  shows "ilog2 a = e"
proof -
  have a: "0 < a" using assms(1) pow2_pos[of e] by linarith
  have "pow2 (ilog2 a) < pow2 (e + 1)" using ilog2_lower[OF a] assms(2) by linarith
  then have 1: "ilog2 a < e + 1" using pow2_mono[of "e + 1" "ilog2 a"] by (cases "ilog2 a < e + 1") auto
  have "pow2 e < pow2 (ilog2 a + 1)" using ilog2_upper[OF a] assms(1) by linarith
  then have 2: "e < ilog2 a + 1" using pow2_mono[of "ilog2 a + 1" e] by (cases "e < ilog2 a + 1") auto
  from 1 2 show ?thesis by simp
qed

lemma round_half_even_int [simp]: "round_half_even (of_int n) = n"
  by (simp add: round_half_even_def)

lemma fl_round_exact:
  assumes x: "x = of_int m * pow2 e" and m: "\<bar>m\<bar> < 2 ^ 53" and e: "- 1074 \<le> e"
    and b: "\<bar>x\<bar> < pow2 1024"
  shows "fl_round x = Fin x"
proof (cases "x = 0")
  case True then show ?thesis by (simp add: fl_round_def)
next
  case False
  define a where "a = \<bar>x\<bar>"
  define q where "q = max (ilog2 a - 52) (- 1074)"
  have a0: "0 < a" using False by (simp add: a_def)
  have am: "a = of_int \<bar>m\<bar> * pow2 e" by (simp add: a_def x abs_mult abs_of_pos)
  have "of_int \<bar>m\<bar> < (pow2 53 :: rat)" using m unfolding pow2_def
    by (simp del: of_int_abs)
  then have "a < pow2 53 * pow2 e" unfolding am by (simp)
  then have "pow2 (ilog2 a) < pow2 (53 + e)" using ilog2_lower[OF a0] by (simp add: pow2_add)
  then have "ilog2 a < 53 + e" using pow2_mono[of "53 + e" "ilog2 a"] by (cases "ilog2 a < 53 + e") auto
  then have qe: "q \<le> e" using e by (simp add: q_def)
  have "a / pow2 q = of_int \<bar>m\<bar> * pow2 (e - q)" by (simp add: am pow2_diff)
  also have "pow2 (e - q) = of_int (2 ^ nat (e - q))" using qe by (simp add: pow2_def)
  finally have "a / pow2 q = of_int (\<bar>m\<bar> * 2 ^ nat (e - q))" by simp
  then have "of_int (round_half_even (a / pow2 q)) * pow2 q = a / pow2 q * pow2 q"
    by (simp only: round_half_even_int)
  then have y: "of_int (round_half_even (a / pow2 q)) * pow2 q = a" by simp
  have "ilog2 a < 1024"
  proof (rule ccontr)
    assume "\<not> ilog2 a < 1024"
    then have "pow2 1024 \<le> pow2 (ilog2 a)" by (intro pow2_mono) simp
    with ilog2_lower[OF a0] b show False by (simp add: a_def)
  qed
  then show ?thesis using False a0
    unfolding fl_round_def Let_def a_def[symmetric] q_def[symmetric] y
    by (auto simp: a_def)
qed


lemma fl_round_exact':
  assumes x: "x = of_int m * pow2 e" and m: "\<bar>m\<bar> < 2 ^ 53" and e: "- 1074 \<le> e" "e \<le> 971"
  shows "fl_round x = Fin x"
proof (rule fl_round_exact[OF x m e(1)])
  have "of_int \<bar>m\<bar> < (pow2 53 :: rat)" using m unfolding pow2_def
    by (simp del: of_int_abs)
  then have "\<bar>x\<bar> < pow2 53 * pow2 e" unfolding x by (simp add: abs_mult abs_of_pos)
  also have "\<dots> = pow2 (53 + e)" by (simp add: pow2_add)
  also have "\<dots> \<le> pow2 1024" using e(2) by (intro pow2_mono) simp
  finally show "\<bar>x\<bar> < pow2 1024" .
qed

lemma fl_round_numeral:
  assumes "(numeral n :: int) < 2 ^ 53"
  shows "fl_round (numeral n) = Fin (numeral n)"
proof (rule fl_round_exact'[where m = "numeral n" and e = 0])
  show "(numeral n :: rat) = of_int (numeral n) * pow2 0" by (simp add: pow2_def)
  show "\<bar>numeral n :: int\<bar> < 2 ^ 53" using assms by (simp only: abs_numeral)
qed simp_all

lemma fl_round_half:
  assumes "(numeral n :: int) < 2 ^ 53"
  shows "fl_round (numeral n / 2) = Fin (numeral n / 2)"
proof (rule fl_round_exact'[where m = "numeral n" and e = "- 1"])
  show "(numeral n / 2 :: rat) = of_int (numeral n) * pow2 (- 1)" by (simp add: pow2_def)
  show "\<bar>numeral n :: int\<bar> < 2 ^ 53" using assms by (simp only: abs_numeral)
qed simp_all

lemma fl_add_Fin: "fl_add (Fin x) (Fin y) = fl_round (x + y)"
  by (simp add: fl_add_def)

section \<open>Properties of \<open>math_utils\<close>\<close>

lemma fl_div_nonzero: "\<not> fl_eq b (Fin 0) \<Longrightarrow> \<exists>q. fl_div a b = Inr q"
  by (cases a; cases b) (auto simp: fl_div_def fl_eq_def)

text \<open>
  Claim C9. \<open>divide(a, b)\<close> raises the division-by-zero error for every \<open>a\<close> when
  \<open>b == 0\<close>; for every other \<open>b\<close> it raises nothing and returns the float quotient
  \<open>a / b\<close>. \<open>add(a, b)\<close> returns the float sum \<open>a + b\<close>.
\<close>

theorem divide_add_spec:
  "(fl_eq b (Fin 0) \<longrightarrow> divide_py a b = Inl (ZeroDivisionError ''division by zero''))
   \<and> (\<not> fl_eq b (Fin 0) \<longrightarrow> (\<exists>q. fl_div a b = Inr q \<and> divide_py a b = Inr q))
   \<and> add a b = fl_add a b"
  using fl_div_nonzero [of b a] by (auto simp: divide_py_def add_def)


theorem divide_add_spec_witness:
  "fl_eq (Fin 0) (Fin 0) \<and> divide_py (Fin 1) (Fin 0) = Inl (ZeroDivisionError ''division by zero'')
   \<and> \<not> fl_eq (Fin 2) (Fin 0) \<and> divide_py (Fin 5) (Fin 2) = Inr (Fin (5 / 2))
   \<and> add (Fin 5) (Fin 2) = Fin 7"
  using divide_add_spec [of "Fin 0" "Fin 1"] divide_add_spec [of "Fin 2" "Fin 5"]
  by (simp add: fl_eq_def fl_div_def add_def fl_add_Fin fl_round_numeral fl_round_half)

section \<open>Empty input and the happy path\<close>

lemma format_2f_cents:
  "format_2f (Fin (of_nat n / 100)) = str_nat (n div 100) @ ''.'' @ zfill 2 (str_nat (n mod 100))"
proof -
  have "\<bar>rat_of_nat n / 100\<bar> * 100 = of_int (int n)" by simp
  then have "round_half_even (\<bar>rat_of_nat n / 100\<bar> * 100) = int n"
    by (simp only: round_half_even_int)
  moreover have "\<not> rat_of_nat n / 100 < 0" by simp
  ultimately show ?thesis by (simp add: format_2f_def Let_def del: of_int_of_nat_eq)
qed

lemma str_nat_values:
  "str_nat 0 = ''0''" "str_nat 8 = ''8''" "str_nat 19 = ''19''" "str_nat 20 = ''20''"
  "str_nat 48 = ''48''" "str_nat 50 = ''50''"
  by code_simp+

lemma format_2f_zero: "format_2f (Fin 0) = ''0.00''"
  using format_2f_cents [of 0] by (simp add: str_nat_values zfill_def)

lemma truncate_top_Nil [simp]: "truncate_top top_n [] = []"
  by (simp add: truncate_top_def split: option.splits)

lemma aggregate_by_sku_Nil [simp]: "aggregate_by_sku [] = []"
  by (simp add: aggregate_by_sku_def totals_by_sku_def sorted_py_def)

lemma aggregate_by_date_Nil [simp]: "aggregate_by_date [] = []"
  by (simp add: aggregate_by_date_def totals_by_date_def sorted_py_def)

lemma header_only: "csv_reader parse_reset (file_lines [] (''date,sku,amount'' @ [LF])) = Inr [[''date'', ''sku'', ''amount'']]"
  by code_simp

lemma strip_cols: "map strip [''date'', ''sku'', ''amount''] = [''date'', ''sku'', ''amount'']"
  by code_simp

lemma parse_rows_content: "fs p = Some c \<Longrightarrow> parse_rows p fs = parse_rows [] [[] \<mapsto> c]"
  by (simp add: parse_rows_def)

text \<open>
  Claim C7. A zero-length file parses to the empty record list, and so does a file that
  holds the header line only; for the empty record list the output is \<open>TOTAL,0.00\<close>, an
  empty \<open>BY_SKU\<close> section (and an empty \<open>BY_DATE\<close> section when asked for) and
  \<open>DATE_RANGE,unknown\<close>, whatever the truncation.
\<close>

theorem empty_input:
  "parse_rows p (fs(p \<mapsto> [])) = Inr []
   \<and> parse_rows p (fs(p \<mapsto> ''date,sku,amount'' @ [LF])) = Inr []
   \<and> format_output_lines [] top_n False = [''TOTAL,0.00'', ''BY_SKU'', ''DATE_RANGE,unknown'']
   \<and> format_output_lines [] top_n True
       = [''TOTAL,0.00'', ''BY_SKU'', ''BY_DATE'', ''DATE_RANGE,unknown'']"
proof -
  have 1: "parse_rows p (fs(p \<mapsto> [])) = Inr []" by (simp add: parse_rows_def)
  have "parse_rows [] [[] \<mapsto> ''date,sku,amount'' @ [LF]] = Inr []"
    by code_simp
  then have 2: "parse_rows p (fs(p \<mapsto> ''date,sku,amount'' @ [LF])) = Inr []"
    using parse_rows_content[of "fs(p \<mapsto> ''date,sku,amount'' @ [LF])" p] by simp
  have 3: "format_output_lines [] top_n bd
       = [''TOTAL,0.00'', ''BY_SKU''] @ (if bd then [''BY_DATE''] else []) @ [''DATE_RANGE,unknown'']" for bd
    by (simp add: format_output_lines_def py_sum_def format_2f_zero)
  show ?thesis using 1 2 3[of True] 3[of False] by simp
qed

lemma happy_totals: "totals_by_sku happy_path_rows = [(''AAA'', Fin (39/2)), (''BBB'', Fin (17/2)), (''CCC'', Fin 20)]"
  by (simp add: totals_by_sku_def happy_path_rows_def dict_get_def fl_add_Fin fl_round_numeral fl_round_half)

lemma happy_agg: "aggregate_by_sku happy_path_rows = [(''CCC'', Fin 20), (''AAA'', Fin (39/2)), (''BBB'', Fin (17/2))]"
  by (simp add: aggregate_by_sku_def happy_totals sorted_py_def tuple_lt_def fl_eq_def fl_lt_def fl_neg_def)

lemma happy_sum: "py_sum (map amount happy_path_rows) = Fin 48"
  by (simp add: py_sum_def happy_path_rows_def fl_add_Fin fl_round_numeral fl_round_half)

lemma happy_fmt: "format_2f (Fin 48) = ''48.00''" "format_2f (Fin 20) = ''20.00''"
  "format_2f (Fin (39/2)) = ''19.50''" "format_2f (Fin (17/2)) = ''8.50''"
  using format_2f_cents [of 4800] format_2f_cents [of 2000] format_2f_cents [of 1950]
    format_2f_cents [of 850]
  by (simp_all add: str_nat_values zfill_def)

lemma happy_range: "isoformat (min_date (Date 2024 6 1) [Date 2024 6 2, Date 2024 6 3, Date 2024 6 3, Date 2024 6 5, Date 2024 6 6]) = ''2024-06-01''"
  "isoformat (max_date (Date 2024 6 1) [Date 2024 6 2, Date 2024 6 3, Date 2024 6 3, Date 2024 6 5, Date 2024 6 6]) = ''2024-06-06''"
  by code_simp+

lemma happy_lines:
  "format_output_lines happy_path_rows None False
   = [''TOTAL,48.00'', ''BY_SKU'', ''CCC,20.00'', ''AAA,19.50'', ''BBB,8.50'',
      ''DATE_RANGE,2024-06-01..2024-06-06'']"
proof -
  have dts: "map dt happy_path_rows = [Date 2024 6 1, Date 2024 6 2, Date 2024 6 3, Date 2024 6 3, Date 2024 6 5, Date 2024 6 6]"
    by (simp add: happy_path_rows_def)
  show ?thesis
    by (simp only: format_output_lines_def Let_def happy_sum happy_agg dts list.case happy_range happy_fmt
        truncate_top_def option.case list.map prod.case append.simps if_False)
qed

text \<open>
  Claim C8. For the six records of the happy-path test the output is \<open>TOTAL,48.00\<close>, the
  \<open>BY_SKU\<close> lines \<open>CCC,20.00\<close>, \<open>AAA,19.50\<close>, \<open>BBB,8.50\<close> in this order, and
  \<open>DATE_RANGE,2024-06-01..2024-06-06\<close>.
\<close>

theorem happy_path_output:
  "format_output_lines happy_path_rows None False
   = [''TOTAL,48.00'', ''BY_SKU'', ''CCC,20.00'', ''AAA,19.50'', ''BBB,8.50'',
      ''DATE_RANGE,2024-06-01..2024-06-06'']"
  by (rule happy_lines)

section \<open>Truncation and export\<close>

lemma format_output_lines_eq:
  "format_output_lines rows top_n bd
   = [''TOTAL,'' @ format_2f (py_sum (map amount rows)), ''BY_SKU'']
     @ map (\<lambda>(s, a). s @ '','' @ format_2f a) (truncate_top top_n (aggregate_by_sku rows))
     @ (if bd then ''BY_DATE'' # map (\<lambda>(d, a). isoformat d @ '','' @ format_2f a)
                                   (aggregate_by_date rows) else [])
     @ [''DATE_RANGE,'' @ (case map dt rows of [] \<Rightarrow> ''unknown''
          | d # ds \<Rightarrow> isoformat (min_date d ds) @ ''..'' @ isoformat (max_date d ds))]"
  by (simp add: format_output_lines_def Let_def)

lemma take_drop_app3: "length b = m \<Longrightarrow> take m (drop 2 ([x, y] @ b @ c)) = b"
  by simp

lemma drop_app3: "length b = m \<Longrightarrow> drop (2 + m) ([x, y] @ b @ c) = c"
  by simp

text \<open>
  Claim C3. With \<open>top = n\<close>, \<open>n \<ge> 0\<close>, the output differs from the output without a limit in
  the \<open>BY_SKU\<close> section only: the first two lines (\<open>TOTAL\<close> and the \<open>BY_SKU\<close> header) are the
  same, the section holds the first \<open>n\<close> pairs of \<open>aggregate_by_sku\<close> (all of them when there
  are fewer), and everything after it (the \<open>BY_DATE\<close> section when asked for, and the
  \<open>DATE_RANGE\<close> line) is the same. A negative \<open>top\<close> gives the output without a limit, whose
  \<open>BY_SKU\<close> section holds all pairs.
\<close>

theorem top_changes_by_sku_only:
  "(0 \<le> n \<longrightarrow>
      take 2 (format_output_lines rows (Some n) bd) = take 2 (format_output_lines rows None bd)
    \<and> take (min (nat n) (length (aggregate_by_sku rows)))
           (drop 2 (format_output_lines rows (Some n) bd))
        = map (\<lambda>(s, a). s @ '','' @ format_2f a) (take (nat n) (aggregate_by_sku rows))
    \<and> drop (2 + min (nat n) (length (aggregate_by_sku rows)))
           (format_output_lines rows (Some n) bd)
        = drop (2 + length (aggregate_by_sku rows)) (format_output_lines rows None bd)
    \<and> length (format_output_lines rows (Some n) bd) + length (aggregate_by_sku rows)
        = length (format_output_lines rows None bd) + min (nat n) (length (aggregate_by_sku rows)))
   \<and> (n < 0 \<longrightarrow> format_output_lines rows (Some n) bd = format_output_lines rows None bd)
   \<and> take (length (aggregate_by_sku rows)) (drop 2 (format_output_lines rows None bd))
       = map (\<lambda>(s, a). s @ '','' @ format_2f a) (aggregate_by_sku rows)"
proof -
  let ?agg = "aggregate_by_sku rows"
  let ?f = "\<lambda>(s, a). s @ '','' @ format_2f a"
  have len: "length (map ?f (take (nat n) ?agg)) = min (nat n) (length ?agg)"
    by (simp add: min.commute)
  have t_some: "0 \<le> n \<Longrightarrow> truncate_top (Some n) ?agg = take (nat n) ?agg"
    and t_neg: "n < 0 \<Longrightarrow> truncate_top (Some n) ?agg = ?agg"
    and t_none: "truncate_top None ?agg = ?agg"
    by (simp_all add: truncate_top_def)
  show ?thesis
    unfolding format_output_lines_eq
    using take_drop_app3[OF len] drop_app3[OF len]
      take_drop_app3[of "map ?f ?agg" "length ?agg"] drop_app3[of "map ?f ?agg" "length ?agg"]
    by (auto simp add: t_some t_neg t_none simp del: append.simps drop_Cons' take_Cons')
qed

theorem top_changes_by_sku_only_witness:
  "(0::int) \<le> 2
   \<and> take 2 (format_output_lines happy_path_rows (Some 2) False) = [''TOTAL,48.00'', ''BY_SKU'']
   \<and> take 2 (drop 2 (format_output_lines happy_path_rows (Some 2) False))
       = [''CCC,20.00'', ''AAA,19.50'']
   \<and> drop 4 (format_output_lines happy_path_rows (Some 2) False)
       = [''DATE_RANGE,2024-06-01..2024-06-06'']
   \<and> (- 1 :: int) < 0
   \<and> format_output_lines happy_path_rows (Some (- 1)) False
       = format_output_lines happy_path_rows None False"
  using top_changes_by_sku_only [of 2 happy_path_rows False]
    top_changes_by_sku_only [of "- 1" happy_path_rows False]
  by (simp add: happy_agg happy_lines happy_fmt eval_nat_numeral)

lemma truncate_top_norm:
  "truncate_top (case t of None \<Rightarrow> None | Some n \<Rightarrow> if 0 \<le> n then Some n else None) xs
   = truncate_top t xs"
  by (simp add: truncate_top_def split: option.splits)

lemma format_output_lines_norm:
  "format_output_lines rows (case t of None \<Rightarrow> None | Some n \<Rightarrow> if 0 \<le> n then Some n else None) bd
   = format_output_lines rows t bd"
  by (simp only: format_output_lines_eq truncate_top_norm)

text \<open>
  Claim C6. When parsing succeeds and an export path is given, \<open>main\<close> writes the header row
  \<open>sku,amount\<close> followed by one row \<open>[sku, amount to two decimals]\<close> for each pair of the
  truncated \<open>aggregate_by_sku\<close> list, and the \<open>BY_SKU\<close> section it prints holds the line
  \<open>sku,amount\<close> for exactly the same pairs, formatted by the same function.
\<close>

theorem export_matches_display:
  assumes "parse_rows (ns_csv_path ns) fs = Inr rows" and "ns_out ns = Some p" and "p \<noteq> []"
  shows "main fs ns = Inr \<lparr>code = 0,
            stdout = join [LF] (format_output_lines rows (ns_top ns) (ns_by_date ns)) @ [LF],
            stderr = [],
            files = fs(p \<mapsto> concat (map writerow ([''sku'', ''amount'']
                      # map (\<lambda>(s, a). [s, format_2f a])
                          (truncate_top (ns_top ns) (aggregate_by_sku rows)))))\<rparr>
     \<and> take (length (truncate_top (ns_top ns) (aggregate_by_sku rows)))
          (drop 2 (format_output_lines rows (ns_top ns) (ns_by_date ns)))
        = map (\<lambda>(s, a). s @ '','' @ format_2f a)
            (truncate_top (ns_top ns) (aggregate_by_sku rows))"
proof -
  let ?pairs = "truncate_top (ns_top ns) (aggregate_by_sku rows)"
  have tr: "(case (case ns_top ns of None \<Rightarrow> None | Some n \<Rightarrow> if 0 \<le> n then Some n else None) of
              None \<Rightarrow> aggregate_by_sku rows | Some n \<Rightarrow> take (nat n) (aggregate_by_sku rows)) = ?pairs"
    by (simp add: truncate_top_def split: option.splits)
  have "main fs ns = Inr \<lparr>code = 0,
            stdout = join [LF] (format_output_lines rows (ns_top ns) (ns_by_date ns)) @ [LF],
            stderr = [],
            files = fs(p \<mapsto> concat (map writerow ([''sku'', ''amount'']
                      # map (\<lambda>(s, a). [s, format_2f a]) ?pairs)))\<rparr>"
    using assms
    by (simp add: main_def Let_def tr format_output_def format_output_lines_norm export_rows_def)
  moreover have "take (length ?pairs) (drop 2 (format_output_lines rows (ns_top ns) (ns_by_date ns)))
        = map (\<lambda>(s, a). s @ '','' @ format_2f a) ?pairs"
    unfolding format_output_lines_eq by simp
  ultimately show ?thesis by simp
qed

lemma happy_parse: "parse_rows ''sales.csv'' [''sales.csv'' \<mapsto> happy_path_csv] = Inr happy_path_rows"
  by code_simp

lemma happy_export:
  "writerow [''sku'', ''amount''] = ''sku,amount'' @ [CR, LF]"
  "writerow [''CCC'', ''20.00''] = ''CCC,20.00'' @ [CR, LF]"
  "writerow [''AAA'', ''19.50''] = ''AAA,19.50'' @ [CR, LF]"
  by code_simp+

lemma happy_reread:
  "csv_reader parse_reset (file_lines [] (''sku,amount'' @ [CR, LF] @ ''CCC,20.00'' @ [CR, LF]
      @ ''AAA,19.50'' @ [CR, LF]))
   = Inr [[''sku'', ''amount''], [''CCC'', ''20.00''], [''AAA'', ''19.50'']]"
  by code_simp

theorem export_matches_display_witness:
  "parse_rows ''sales.csv'' [''sales.csv'' \<mapsto> happy_path_csv] = Inr happy_path_rows
   \<and> ''out.csv'' \<noteq> []
   \<and> (case main [''sales.csv'' \<mapsto> happy_path_csv]
              \<lparr>ns_csv_path = ''sales.csv'', ns_top = Some 2, ns_by_date = False,
               ns_out = Some ''out.csv''\<rparr> of
         Inl e \<Rightarrow> False
       | Inr r \<Rightarrow> code r = 0
           \<and> files r ''out.csv''
               = Some (''sku,amount'' @ [CR, LF] @ ''CCC,20.00'' @ [CR, LF] @ ''AAA,19.50'' @ [CR, LF]))
   \<and> take 2 (drop 2 (format_output_lines happy_path_rows (Some 2) False))
       = [''CCC,20.00'', ''AAA,19.50'']
   \<and> csv_reader parse_reset (file_lines [] (''sku,amount'' @ [CR, LF] @ ''CCC,20.00'' @ [CR, LF]
          @ ''AAA,19.50'' @ [CR, LF]))
       = Inr [[''sku'', ''amount''], [''CCC'', ''20.00''], [''AAA'', ''19.50'']]"
proof -
  let ?ns = "\<lparr>ns_csv_path = ''sales.csv'', ns_top = Some 2, ns_by_date = False,
               ns_out = Some ''out.csv''\<rparr>"
  let ?fs = "[''sales.csv'' \<mapsto> happy_path_csv]"
  have p: "parse_rows (ns_csv_path ?ns) ?fs = Inr happy_path_rows" by (simp add: happy_parse)
  have q: "ns_out ?ns = Some ''out.csv''" by simp
  have o: "''out.csv'' \<noteq> []" by simp
  from export_matches_display [OF p q o] happy_reread show ?thesis
    by (simp add: happy_parse happy_agg truncate_top_def happy_fmt happy_export eval_nat_numeral)
qed

section \<open>Row validation\<close>

lemma parse_loop_append:
  "parse_loop fns i (xs @ ys) acc
   = (case parse_loop fns i xs acc of
        Inl e \<Rightarrow> Inl e
      | Inr acc' \<Rightarrow> parse_loop fns (i + length xs) ys acc')"
proof (induction xs arbitrary: i acc)
  case Nil
  then show ?case by simp
next
  case (Cons x xs)
  show ?case
    by (simp add: Let_def Cons.IH split: option.splits sum.splits)
qed

lemma parse_loop_step:
  assumes "parse_loop fns 2 pre [] = Inr rows"
  shows "parse_loop fns 2 (pre @ r # rest) [] = parse_loop fns (2 + length pre) (r # rest) rows"
  using assms by (simp add: parse_loop_append)

text \<open>
  Claim C10. On the first row that fails, the checks are made in a fixed order: an empty
  sku is reported whatever the date and the amount are, and an invalid date is reported
  whatever the amount is; an invalid amount is reported only when sku and date are valid.
\<close>

theorem validation_precedence:
  assumes "parse_loop fns 2 pre [] = Inr rows"
  shows "(strip (raw_get (dict_row fns r) ''sku'') = [] \<longrightarrow>
            parse_loop fns 2 (pre @ r # rest) []
            = Inl (InputError (''line '' @ str_nat (2 + length pre) @ '': sku must be non-empty'')))
       \<and> (strip (raw_get (dict_row fns r) ''sku'') \<noteq> []
            \<and> date_fromisoformat (strip (raw_get (dict_row fns r) ''date'')) = None \<longrightarrow>
            parse_loop fns 2 (pre @ r # rest) []
            = Inl (InputError (''line '' @ str_nat (2 + length pre) @ '': invalid date '' @ [SQ]
                     @ strip (raw_get (dict_row fns r) ''date'') @ [SQ] @ '' (YYYY-MM-DD)'')))
       \<and> (strip (raw_get (dict_row fns r) ''sku'') \<noteq> []
            \<and> date_fromisoformat (strip (raw_get (dict_row fns r) ''date'')) \<noteq> None
            \<and> float_of_string (strip (raw_get (dict_row fns r) ''amount'')) = None \<longrightarrow>
            parse_loop fns 2 (pre @ r # rest) []
            = Inl (InputError (''line '' @ str_nat (2 + length pre) @ '': invalid amount '' @ [SQ]
                     @ strip (raw_get (dict_row fns r) ''amount'') @ [SQ])))"
  unfolding parse_loop_step [OF assms]
  by (auto simp: Let_def split: option.splits)

lemma row_facts:
  "parse_loop [''date'', ''sku'', ''amount''] 2 [[''2024-01-01'', ''AAA'', ''1'']] []
    = Inr [\<lparr>dt = Date 2024 1 1, sku = ''AAA'', amount = Fin 1\<rparr>]"
  "strip (raw_get (dict_row [''date'', ''sku'', ''amount''] [''someday'', ''  '', ''ten'']) ''sku'') = []"
  "date_fromisoformat (strip (raw_get (dict_row [''date'', ''sku'', ''amount''] [''someday'', ''  '', ''ten'']) ''date'')) = None"
  "strip (raw_get (dict_row [''date'', ''sku'', ''amount''] [''someday'', ''AAA'', ''ten'']) ''sku'') = ''AAA''"
  "strip (raw_get (dict_row [''date'', ''sku'', ''amount''] [''someday'', ''AAA'', ''ten'']) ''date'') = ''someday''"
  "date_fromisoformat ''someday'' = None"
  "str_nat 3 = ''3''"
  by code_simp+

theorem validation_precedence_witness:
  "parse_loop [''date'', ''sku'', ''amount''] 2 [[''2024-01-01'', ''AAA'', ''1'']] []
    = Inr [\<lparr>dt = Date 2024 1 1, sku = ''AAA'', amount = Fin 1\<rparr>]
   \<and> strip (raw_get (dict_row [''date'', ''sku'', ''amount''] [''someday'', ''  '', ''ten'']) ''sku'') = []
   \<and> date_fromisoformat (strip (raw_get (dict_row [''date'', ''sku'', ''amount'']
         [''someday'', ''  '', ''ten'']) ''date'')) = None
   \<and> parse_loop [''date'', ''sku'', ''amount''] 2
         [[''2024-01-01'', ''AAA'', ''1''], [''someday'', ''  '', ''ten'']] []
       = Inl (InputError ''line 3: sku must be non-empty'')
   \<and> parse_loop [''date'', ''sku'', ''amount''] 2
         [[''2024-01-01'', ''AAA'', ''1''], [''someday'', ''AAA'', ''ten'']] []
       = Inl (InputError (''line 3: invalid date '' @ [SQ] @ ''someday'' @ [SQ] @ '' (YYYY-MM-DD)''))"
  using validation_precedence [OF row_facts(1), of "[''someday'', ''  '', ''ten'']" "[]"]
    validation_precedence [OF row_facts(1), of "[''someday'', ''AAA'', ''ten'']" "[]"]
  by (simp add: row_facts del: parse_loop.simps)

lemma float_of_string_nonfinite:
  "float_of_string ''inf'' = Some PInf" "float_of_string ''-Infinity'' = Some NInf"
  "float_of_string ''NaN'' = Some NaN"
  by code_simp+

text \<open>
  Claim C5, as the code has it. On a row whose sku and date are valid, the trimmed amount
  field must be accepted by \<open>float\<close>: when it is not, the row raises the \<open>InputError\<close> with
  the line number and the trimmed string; when it is, the row is kept with that value.
  \<open>float\<close> accepts the spellings of the infinities and of NaN, so an amount need not be
  finite.
\<close>

theorem amount_must_parse_as_float:
  assumes "parse_loop fns 2 pre [] = Inr rows"
    and "strip (raw_get (dict_row fns r) ''sku'') \<noteq> []"
    and "date_fromisoformat (strip (raw_get (dict_row fns r) ''date'')) = Some d"
  shows "(float_of_string (strip (raw_get (dict_row fns r) ''amount'')) = None \<longrightarrow>
            parse_loop fns 2 (pre @ r # rest) []
            = Inl (InputError (''line '' @ str_nat (2 + length pre) @ '': invalid amount '' @ [SQ]
                     @ strip (raw_get (dict_row fns r) ''amount'') @ [SQ])))
       \<and> (\<forall>x. float_of_string (strip (raw_get (dict_row fns r) ''amount'')) = Some x \<longrightarrow>
            parse_loop fns 2 (pre @ [r]) []
            = Inr (rows @ [\<lparr>dt = d, sku = strip (raw_get (dict_row fns r) ''sku''), amount = x\<rparr>]))
       \<and> float_of_string ''inf'' = Some PInf
       \<and> float_of_string ''-Infinity'' = Some NInf
       \<and> float_of_string ''NaN'' = Some NaN"
  unfolding parse_loop_step [OF assms(1)]
  using assms(2,3) by (auto simp: Let_def float_of_string_nonfinite)

lemma amount_facts:
  "strip (raw_get (dict_row [''date'', ''sku'', ''amount''] [''2024-01-02'', ''BBB'', ''ten'']) ''sku'') = ''BBB''"
  "date_fromisoformat (strip (raw_get (dict_row [''date'', ''sku'', ''amount''] [''2024-01-02'', ''BBB'', ''ten'']) ''date'')) = Some (Date 2024 1 2)"
  "strip (raw_get (dict_row [''date'', ''sku'', ''amount''] [''2024-01-02'', ''BBB'', ''ten'']) ''amount'') = ''ten''"
  "float_of_string ''ten'' = None"
  "strip (raw_get (dict_row [''date'', ''sku'', ''amount''] [''2024-01-02'', ''BBB'', '' inf '']) ''sku'') = ''BBB''"
  "date_fromisoformat (strip (raw_get (dict_row [''date'', ''sku'', ''amount''] [''2024-01-02'', ''BBB'', '' inf '']) ''date'')) = Some (Date 2024 1 2)"
  "strip (raw_get (dict_row [''date'', ''sku'', ''amount''] [''2024-01-02'', ''BBB'', '' inf '']) ''amount'') = ''inf''"
  by code_simp+

theorem amount_must_parse_as_float_witness:
  "parse_loop [''date'', ''sku'', ''amount''] 2 [[''2024-01-01'', ''AAA'', ''1'']] []
    = Inr [\<lparr>dt = Date 2024 1 1, sku = ''AAA'', amount = Fin 1\<rparr>]
   \<and> strip (raw_get (dict_row [''date'', ''sku'', ''amount''] [''2024-01-02'', ''BBB'', ''ten'']) ''sku'') \<noteq> []
   \<and> date_fromisoformat (strip (raw_get (dict_row [''date'', ''sku'', ''amount'']
         [''2024-01-02'', ''BBB'', ''ten'']) ''date'')) = Some (Date 2024 1 2)
   \<and> float_of_string ''ten'' = None
   \<and> parse_loop [''date'', ''sku'', ''amount''] 2
         [[''2024-01-01'', ''AAA'', ''1''], [''2024-01-02'', ''BBB'', ''ten'']] []
       = Inl (InputError (''line 3: invalid amount '' @ [SQ] @ ''ten'' @ [SQ]))
   \<and> float_of_string ''inf'' = Some PInf
   \<and> parse_loop [''date'', ''sku'', ''amount''] 2
         [[''2024-01-01'', ''AAA'', ''1''], [''2024-01-02'', ''BBB'', '' inf '']] []
       = Inr [\<lparr>dt = Date 2024 1 1, sku = ''AAA'', amount = Fin 1\<rparr>,
              \<lparr>dt = Date 2024 1 2, sku = ''BBB'', amount = PInf\<rparr>]"
proof -
  have s1: "strip (raw_get (dict_row [''date'', ''sku'', ''amount''] [''2024-01-02'', ''BBB'', ''ten'']) ''sku'') \<noteq> []"
    and s2: "strip (raw_get (dict_row [''date'', ''sku'', ''amount''] [''2024-01-02'', ''BBB'', '' inf '']) ''sku'') \<noteq> []"
    by (simp_all only: amount_facts) simp_all
  from amount_must_parse_as_float [OF row_facts(1) s1 amount_facts(2), of "[]"]
    amount_must_parse_as_float [OF row_facts(1) s2 amount_facts(6), of "[]"]
  show ?thesis
    by (simp add: amount_facts row_facts float_of_string_nonfinite del: parse_loop.simps)
qed

text \<open>
  Claim C5 as stated does not hold: a non-finite amount is accepted. The file parses, and
  the amounts of its records are an infinity and NaN.
\<close>

theorem nonfinite_amount_accepted:
  "parse_rows ''sales.csv''
     [''sales.csv'' \<mapsto> ''date,sku,amount'' @ [LF] @ ''2024-01-01,AAA,inf'' @ [LF]
        @ ''2024-01-02,BBB,nan'' @ [LF]]
   = Inr [\<lparr>dt = Date 2024 1 1, sku = ''AAA'', amount = PInf\<rparr>,
          \<lparr>dt = Date 2024 1 2, sku = ''BBB'', amount = NaN\<rparr>]"
  by code_simp

text \<open>
  Claim C4 at a file with an empty line before the invalid data line. The invalid line is
  the third line of the file; the \<open>DictReader\<close> skips the empty row, the loop counts the
  rows it gets, and the error names line 2. \<open>main\<close> prints this message and returns 2.
\<close>

theorem line_number_after_blank_line:
  "file_lines [] (''date,sku,amount'' @ [LF] @ [LF] @ ''2024-01-01,AAA,ten'' @ [LF])
     = [''date,sku,amount'' @ [LF], [LF], ''2024-01-01,AAA,ten'' @ [LF]]
   \<and> parse_rows ''sales.csv''
        [''sales.csv'' \<mapsto> ''date,sku,amount'' @ [LF] @ [LF] @ ''2024-01-01,AAA,ten'' @ [LF]]
     = Inl (InputError (''line 2: invalid amount '' @ [SQ] @ ''ten'' @ [SQ]))
   \<and> map_sum id (\<lambda>r. (code r, stdout r, stderr r))
        (main [''sales.csv'' \<mapsto> ''date,sku,amount'' @ [LF] @ [LF] @ ''2024-01-01,AAA,ten'' @ [LF]]
           \<lparr>ns_csv_path = ''sales.csv'', ns_top = None, ns_by_date = False, ns_out = None\<rparr>)
     = Inr (2, [], ''error: line 2: invalid amount '' @ [SQ] @ ''ten'' @ [SQ] @ [LF])"
  by code_simp

section \<open>Dictionaries and sorting\<close>

lemma map_of_dict_set: "map_of (dict_set d k v) = (map_of d)(k \<mapsto> v)"
  by (induction d) (auto simp: fun_eq_iff)

lemma keys_dict_set:
  "map fst (dict_set d k v) = (if k \<in> set (map fst d) then map fst d else map fst d @ [k])"
proof (induction d)
  case Nil
  then show ?case by simp
next
  case (Cons p d)
  obtain k' v' where p: "p = (k', v')" by (cases p)
  show ?case using Cons by (cases "k' = k") (simp_all add: p)
qed

lemma set_keys_dict_set: "set (map fst (dict_set d k v)) = insert k (set (map fst d))"
  by (auto simp: keys_dict_set)

lemma distinct_dict_set: "distinct (map fst d) \<Longrightarrow> distinct (map fst (dict_set d k v))"
  by (simp add: keys_dict_set)

lemma dict_get_dict_set:
  "dict_get (dict_set d k v) k' dflt = (if k' = k then v else dict_get d k' dflt)"
  by (simp add: dict_get_def map_of_dict_set)

lemma totals_keys:
  "set (map fst (foldl (\<lambda>totals r. dict_set totals (key r)
           (fl_add (dict_get totals (key r) (Fin 0)) (amount r))) d rows))
   = set (map fst d) \<union> key ` set rows"
proof (induction rows arbitrary: d)
  case Nil
  then show ?case by simp
next
  case (Cons r rows)
  show ?case
    by (simp only: foldl_Cons Cons.IH set_keys_dict_set list.set image_insert) auto
qed

lemma totals_distinct:
  "distinct (map fst d) \<Longrightarrow>
   distinct (map fst (foldl (\<lambda>totals r. dict_set totals (key r)
           (fl_add (dict_get totals (key r) (Fin 0)) (amount r))) d rows))"
  by (induction rows arbitrary: d) (auto simp: distinct_dict_set)

lemma totals_get:
  "dict_get (foldl (\<lambda>totals r. dict_set totals (key r)
           (fl_add (dict_get totals (key r) (Fin 0)) (amount r))) d rows) k (Fin 0)
   = foldl fl_add (dict_get d k (Fin 0)) (map amount (filter (\<lambda>r. key r = k) rows))"
  by (induction rows arbitrary: d) (auto simp: dict_get_dict_set)

lemma dict_get_member:
  "distinct (map fst d) \<Longrightarrow> (k, v) \<in> set d \<Longrightarrow> dict_get d k dflt = v"
  by (simp add: dict_get_def)

lemma mset_insort_py: "mset (insort_py lt key x ys) = add_mset x (mset ys)"
  by (induction ys) auto

lemma mset_foldl_insort_py:
  "mset (foldl (\<lambda>acc x. insort_py lt key x acc) acc xs) = mset acc + mset xs"
  by (induction xs arbitrary: acc) (auto simp: mset_insort_py)

lemma mset_sorted_py: "mset (sorted_py lt key xs) = mset xs"
  by (simp add: sorted_py_def mset_foldl_insort_py)

lemma set_sorted_py: "set (sorted_py lt key xs) = set xs"
  using mset_sorted_py [of lt key xs] by (metis set_mset_mset)

lemma distinct_keys_sorted_py:
  "distinct (map f (sorted_py lt key xs)) = distinct (map f xs)"
proof -
  have "mset (map f (sorted_py lt key xs)) = mset (map f xs)"
    by (simp add: mset_sorted_py)
  then show ?thesis by (metis distinct_count_atmost_1 set_mset_mset)
qed

text \<open>
  Insertion keeps a list free of inversions when \<open><\<close> is transitive and asymmetric on
  the keys that occur.
\<close>

lemma sorted_insort_py:
  assumes tr: "\<And>a b c. a \<in> S \<Longrightarrow> b \<in> S \<Longrightarrow> c \<in> S \<Longrightarrow> lt a b \<Longrightarrow> lt b c \<Longrightarrow> lt a c"
    and asym: "\<And>a b. a \<in> S \<Longrightarrow> b \<in> S \<Longrightarrow> lt a b \<Longrightarrow> \<not> lt b a"
    and "key x \<in> S" "key ` set ys \<subseteq> S"
    and "sorted_wrt (\<lambda>a b. \<not> lt (key b) (key a)) ys"
  shows "sorted_wrt (\<lambda>a b. \<not> lt (key b) (key a)) (insort_py lt key x ys)"
  using assms(3-)
proof (induction ys)
  case Nil
  then show ?case by simp
next
  case (Cons y ys)
  show ?case
  proof (cases "lt (key x) (key y)")
    case True
    have "\<not> lt (key b) (key x)" if "b \<in> set (y # ys)" for b
    proof
      assume l: "lt (key b) (key x)"
      have b: "key b \<in> S" using that Cons.prems(2) by auto
      have y: "key y \<in> S" using Cons.prems(2) by auto
      from tr [OF b Cons.prems(1) y l True] have "lt (key b) (key y)" .
      moreover have "\<not> lt (key b) (key y)"
        using that Cons.prems(3) asym [OF y y] by auto
      ultimately show False by simp
    qed
    then show ?thesis using True Cons.prems(3) by simp
  next
    case False
    have "set (insort_py lt key x ys) = insert x (set ys)"
      using mset_insort_py [of lt key x ys] by (metis set_mset_add_mset_insert set_mset_mset)
    then show ?thesis using False Cons by auto
  qed
qed

lemma sorted_foldl_insort_py:
  assumes tr: "\<And>a b c. a \<in> S \<Longrightarrow> b \<in> S \<Longrightarrow> c \<in> S \<Longrightarrow> lt a b \<Longrightarrow> lt b c \<Longrightarrow> lt a c"
    and asym: "\<And>a b. a \<in> S \<Longrightarrow> b \<in> S \<Longrightarrow> lt a b \<Longrightarrow> \<not> lt b a"
    and "key ` set xs \<subseteq> S" "key ` set acc \<subseteq> S"
    and "sorted_wrt (\<lambda>a b. \<not> lt (key b) (key a)) acc"
  shows "sorted_wrt (\<lambda>a b. \<not> lt (key b) (key a)) (foldl (\<lambda>acc x. insort_py lt key x acc) acc xs)"
  using assms(3-)
proof (induction xs arbitrary: acc)
  case Nil
  then show ?case by simp
next
  case (Cons x xs)
  have 1: "sorted_wrt (\<lambda>a b. \<not> lt (key b) (key a)) (insort_py lt key x acc)"
    using Cons.prems by (intro sorted_insort_py [of S lt, OF tr asym]) auto
  have "set (insort_py lt key x acc) = insert x (set acc)"
    using mset_insort_py [of lt key x acc] by (metis set_mset_add_mset_insert set_mset_mset)
  then have 2: "key ` set (insort_py lt key x acc) \<subseteq> S" using Cons.prems by auto
  show ?case using Cons.IH [OF _ 2 1] Cons.prems(1) by simp
qed

lemma sorted_sorted_py:
  assumes "\<And>a b c. a \<in> S \<Longrightarrow> b \<in> S \<Longrightarrow> c \<in> S \<Longrightarrow> lt a b \<Longrightarrow> lt b c \<Longrightarrow> lt a c"
    and "\<And>a b. a \<in> S \<Longrightarrow> b \<in> S \<Longrightarrow> lt a b \<Longrightarrow> \<not> lt b a"
    and "key ` set xs \<subseteq> S"
  shows "sorted_wrt (\<lambda>a b. \<not> lt (key b) (key a)) (sorted_py lt key xs)"
  unfolding sorted_py_def
  by (rule sorted_foldl_insort_py [of S lt, OF assms(1,2,3)]) simp_all

text \<open>On keys whose float is not NaN, the tuple comparison is a strict order.\<close>

lemma tuple_lt_trans:
  "fst a \<noteq> NaN \<Longrightarrow> fst b \<noteq> NaN \<Longrightarrow> fst c \<noteq> NaN \<Longrightarrow> tuple_lt a b \<Longrightarrow> tuple_lt b c \<Longrightarrow> tuple_lt a c"
  by (cases "fst a"; cases "fst b"; cases "fst c")
     (auto simp: tuple_lt_def fl_eq_def fl_lt_def split: if_splits)

lemma tuple_lt_asym:
  "fst a \<noteq> NaN \<Longrightarrow> fst b \<noteq> NaN \<Longrightarrow> tuple_lt a b \<Longrightarrow> \<not> tuple_lt b a"
  by (cases "fst a"; cases "fst b")
     (auto simp: tuple_lt_def fl_eq_def fl_lt_def split: if_splits)

lemma not_tuple_lt_neg:
  assumes "ta \<noteq> NaN" "tb \<noteq> NaN" "sa \<noteq> sb" "\<not> tuple_lt (fl_neg tb, sb) (fl_neg ta, sa)"
  shows "fl_lt tb ta \<or> (fl_eq ta tb \<and> sa < sb)"
  using assms
  by (cases ta; cases tb)
     (auto simp: tuple_lt_def fl_eq_def fl_lt_def fl_neg_def split: if_splits)

lemma sorted_wrt_distinct_conj:
  "sorted_wrt P xs \<Longrightarrow> distinct (map f xs) \<Longrightarrow> sorted_wrt (\<lambda>a b. f a \<noteq> f b \<and> P a b) xs"
  by (induction xs) auto

section \<open>Aggregation by SKU\<close>

lemma totals_by_sku_member:
  assumes "p \<in> set (totals_by_sku rows)"
  shows "snd p = foldl fl_add (Fin 0) (map amount (filter (\<lambda>r. sku r = fst p) rows))"
proof -
  have d: "distinct (map fst (totals_by_sku rows))"
    unfolding totals_by_sku_def by (rule totals_distinct) simp
  have "(fst p, snd p) \<in> set (totals_by_sku rows)" using assms by simp
  from dict_get_member [OF d this, of "Fin 0"]
  show ?thesis unfolding totals_by_sku_def totals_get by (simp add: dict_get_def)
qed

text \<open>
  Claim C1, as the code has it. \<open>aggregate_by_sku\<close> returns one pair for each distinct SKU
  of the input; each total is the float sum of that SKU's amounts, added in input order
  to a zero accumulator; the empty input gives the empty list. Provided no total is NaN,
  the pairs are in descending order of the total, and pairs with equal totals are in
  ascending order of the SKU.
\<close>

theorem aggregate_by_sku_spec:
  "distinct (map fst (aggregate_by_sku rows))
   \<and> set (map fst (aggregate_by_sku rows)) = sku ` set rows
   \<and> (\<forall>p \<in> set (aggregate_by_sku rows).
         snd p = foldl fl_add (Fin 0) (map amount (filter (\<lambda>r. sku r = fst p) rows)))
   \<and> (NaN \<notin> snd ` set (aggregate_by_sku rows) \<longrightarrow>
         sorted_wrt (\<lambda>a b. fl_lt (snd b) (snd a) \<or> (fl_eq (snd a) (snd b) \<and> fst a < fst b))
           (aggregate_by_sku rows))
   \<and> aggregate_by_sku [] = []"
proof -
  let ?key = "\<lambda>kv :: string \<times> pyfloat. (fl_neg (snd kv), fst kv)"
  let ?agg = "aggregate_by_sku rows"
  have set_agg: "set ?agg = set (totals_by_sku rows)"
    by (simp add: aggregate_by_sku_def set_sorted_py)
  have dist: "distinct (map fst ?agg)"
    unfolding aggregate_by_sku_def distinct_keys_sorted_py totals_by_sku_def
    by (rule totals_distinct) simp
  have keys: "set (map fst ?agg) = sku ` set rows"
    using totals_keys [of sku "[]" rows] by (simp add: set_agg totals_by_sku_def)
  have tot: "\<forall>p \<in> set ?agg.
         snd p = foldl fl_add (Fin 0) (map amount (filter (\<lambda>r. sku r = fst p) rows))"
    using totals_by_sku_member by (simp add: set_agg)
  have srt: "sorted_wrt (\<lambda>a b. fl_lt (snd b) (snd a) \<or> (fl_eq (snd a) (snd b) \<and> fst a < fst b)) ?agg"
    if nan: "NaN \<notin> snd ` set ?agg"
  proof -
    have neg: "fl_neg t \<noteq> NaN" if "t \<noteq> NaN" for t
      using that by (cases t) (simp_all add: fl_neg_def)
    have sub: "?key ` set (totals_by_sku rows) \<subseteq> {k. fst k \<noteq> NaN}"
    proof
      fix k assume "k \<in> ?key ` set (totals_by_sku rows)"
      then obtain kv where kv: "kv \<in> set (totals_by_sku rows)" and k: "k = ?key kv" by blast
      from kv nan have "snd kv \<noteq> NaN" unfolding set_agg by (metis imageI)
      then show "k \<in> {k. fst k \<noteq> NaN}" using neg k by simp
    qed
    have "sorted_wrt (\<lambda>a b. \<not> tuple_lt (?key b) (?key a)) ?agg"
      unfolding aggregate_by_sku_def
      by (rule sorted_sorted_py [of "{k. fst k \<noteq> NaN}", OF _ _ sub])
         (auto intro: tuple_lt_trans dest: tuple_lt_asym)
    from sorted_wrt_distinct_conj [OF this dist]
    show ?thesis
    proof (rule sorted_wrt_mono_rel [rotated])
      fix a b
      assume a: "a \<in> set ?agg" and b: "b \<in> set ?agg"
        and ab: "fst a \<noteq> fst b \<and> \<not> tuple_lt (?key b) (?key a)"
      have "snd a \<noteq> NaN" "snd b \<noteq> NaN" using a b nan by force+
      from not_tuple_lt_neg [OF this] ab
      show "fl_lt (snd b) (snd a) \<or> (fl_eq (snd a) (snd b) \<and> fst a < fst b)" by simp
    qed
  qed
  have "aggregate_by_sku [] = []"
    by (simp add: aggregate_by_sku_def totals_by_sku_def sorted_py_def)
  with dist keys tot srt show ?thesis by blast
qed

theorem aggregate_by_sku_spec_witness:
  "NaN \<notin> snd ` set (aggregate_by_sku happy_path_rows)
   \<and> aggregate_by_sku happy_path_rows
       = [(''CCC'', Fin 20), (''AAA'', Fin (39 / 2)), (''BBB'', Fin (17 / 2))]
   \<and> sorted_wrt (\<lambda>a b. fl_lt (snd b) (snd a) \<or> (fl_eq (snd a) (snd b) \<and> fst a < fst b))
         (aggregate_by_sku happy_path_rows)
   \<and> sku ` set happy_path_rows = {''CCC'', ''AAA'', ''BBB''}
   \<and> (''AAA'', Fin (39 / 2)) \<in> set (aggregate_by_sku happy_path_rows)
   \<and> foldl fl_add (Fin 0) (map amount (filter (\<lambda>r. sku r = ''AAA'') happy_path_rows))
       = Fin (39 / 2)"
proof -
  note spec = aggregate_by_sku_spec [of happy_path_rows]
  have el: "(''AAA'', Fin (39 / 2)) \<in> set (aggregate_by_sku happy_path_rows)"
    by (simp add: happy_agg)
  from spec have "\<forall>p \<in> set (aggregate_by_sku happy_path_rows).
         snd p = foldl fl_add (Fin 0) (map amount (filter (\<lambda>r. sku r = fst p) happy_path_rows))"
    by (elim conjE)
  from bspec [OF this el]
  have tot: "foldl fl_add (Fin 0) (map amount (filter (\<lambda>r. sku r = ''AAA'') happy_path_rows))
       = Fin (39 / 2)" by simp
  have n: "NaN \<notin> snd ` set (aggregate_by_sku happy_path_rows)" by (simp add: happy_agg)
  from spec have "NaN \<notin> snd ` set (aggregate_by_sku happy_path_rows) \<longrightarrow>
      sorted_wrt (\<lambda>a b. fl_lt (snd b) (snd a) \<or> (fl_eq (snd a) (snd b) \<and> fst a < fst b))
         (aggregate_by_sku happy_path_rows)"
    by (elim conjE)
  with n have s: "sorted_wrt (\<lambda>a b. fl_lt (snd b) (snd a) \<or> (fl_eq (snd a) (snd b) \<and> fst a < fst b))
         (aggregate_by_sku happy_path_rows)" by (rule rev_mp)
  from spec have "set (map fst (aggregate_by_sku happy_path_rows)) = sku ` set happy_path_rows"
    by (elim conjE)
  then have k: "sku ` set happy_path_rows = {''CCC'', ''AAA'', ''BBB''}"
    by (simp only: happy_agg list.map fst_conv list.set)
  from n s k happy_agg el tot show ?thesis by (intro conjI)
qed

text \<open>
  Claim C1 as stated does not hold for every list of records: with a NaN total the result
  is not in descending order of the totals, the first total being neither greater than
  nor equal to the second.
\<close>

theorem aggregate_by_sku_nan_unsorted:
  "aggregate_by_sku nan_rows = [(''A'', NaN), (''B'', Fin 1)]
   \<and> \<not> sorted_wrt (\<lambda>a b. fl_lt (snd b) (snd a) \<or> (fl_eq (snd a) (snd b) \<and> fst a < fst b))
         (aggregate_by_sku nan_rows)"
  by code_simp

section \<open>Sums of the aggregations\<close>

lemma mant_emb [simp]: "mant e (emb e m) = m"
  by (simp add: mant_def emb_def)

lemma on_grid_emb [simp]: "on_grid e (emb e m)"
  by (simp add: on_grid_def)

lemma emb_0: "emb e 0 = Fin 0"
  by (simp add: emb_def)

lemma mant_0 [simp]: "mant e (Fin 0) = 0"
  by (simp add: mant_def)

lemma on_grid_0 [simp]: "on_grid e (Fin 0)"
  by (simp add: on_grid_def emb_0)

lemma sum_list_abs_nonneg: "0 \<le> (\<Sum>v\<leftarrow>vs. \<bar>f v :: int\<bar>)"
  by (rule sum_list_nonneg) auto

lemma sum_list_mset_cong:
  assumes "mset xs = mset ys"
  shows "(\<Sum>x\<leftarrow>xs. f x) = (\<Sum>x\<leftarrow>ys. (f x :: int))"
proof -
  have "sum_mset (mset (map f xs)) = sum_mset (mset (map f ys))" by (simp add: assms)
  then show ?thesis by (simp only: sum_mset_sum_list)
qed

lemma fl_add_emb:
  assumes "- 1074 \<le> e" "e \<le> 971" "\<bar>m + k\<bar> < 2 ^ 53"
  shows "fl_add (emb e m) (emb e k) = emb e (m + k)"
proof -
  have "of_int m * pow2 e + of_int k * pow2 e = of_int (m + k) * pow2 e"
    by (simp add: algebra_simps)
  from fl_round_exact' [OF this assms(3) assms(1) assms(2)]
  show ?thesis by (simp add: emb_def fl_add_Fin algebra_simps)
qed

lemma fl_add_on_grid:
  assumes "- 1074 \<le> e" "e \<le> 971" "on_grid e a" "on_grid e b" "\<bar>mant e a\<bar> + \<bar>mant e b\<bar> < 2 ^ 53"
  shows "fl_add a b = emb e (mant e a + mant e b)"
proof -
  have "\<bar>mant e a + mant e b\<bar> < 2 ^ 53" using assms(5) by linarith
  from fl_add_emb [OF assms(1,2) this] assms(3,4) show ?thesis
    by (simp add: on_grid_def)
qed

lemma foldl_fl_add_exact:
  assumes "- 1074 \<le> e" "e \<le> 971"
  shows "list_all (on_grid e) vs \<Longrightarrow> \<bar>s\<bar> + (\<Sum>v\<leftarrow>vs. \<bar>mant e v\<bar>) < 2 ^ 53
    \<Longrightarrow> foldl fl_add (emb e s) vs = emb e (s + (\<Sum>v\<leftarrow>vs. mant e v))"
proof (induction vs arbitrary: s)
  case Nil
  then show ?case by simp
next
  case (Cons v vs)
  have 1: "fl_add (emb e s) v = emb e (s + mant e v)"
    using fl_add_on_grid [OF assms, of "emb e s" v] Cons.prems sum_list_abs_nonneg [of "mant e" vs]
    by simp
  have 2: "\<bar>s + mant e v\<bar> + (\<Sum>v\<leftarrow>vs. \<bar>mant e v\<bar>) < 2 ^ 53"
    using Cons.prems(2) by simp
  show ?case using Cons.IH [OF _ 2] Cons.prems(1) by (simp add: 1 add.assoc)
qed

lemma py_sum_exact:
  assumes "- 1074 \<le> e" "e \<le> 971" "list_all (on_grid e) vs" "(\<Sum>v\<leftarrow>vs. \<bar>mant e v\<bar>) < 2 ^ 53"
  shows "py_sum vs = emb e (\<Sum>v\<leftarrow>vs. mant e v)"
  using foldl_fl_add_exact [OF assms(1,2,3), of 0] assms(4) by (simp add: py_sum_def emb_0)

text \<open>One step of the aggregation loop keeps the totals on the grid and adds exactly.\<close>

lemma totals_step_exact:
  assumes "- 1074 \<le> e" "e \<le> 971" "on_grid e a"
  shows "list_all (on_grid e) (map snd d)
    \<Longrightarrow> (\<Sum>v\<leftarrow>map snd d. \<bar>mant e v\<bar>) + \<bar>mant e a\<bar> < 2 ^ 53
    \<Longrightarrow> list_all (on_grid e) (map snd (dict_set d k (fl_add (dict_get d k (Fin 0)) a)))
      \<and> (\<Sum>v\<leftarrow>map snd (dict_set d k (fl_add (dict_get d k (Fin 0)) a)). \<bar>mant e v\<bar>)
          \<le> (\<Sum>v\<leftarrow>map snd d. \<bar>mant e v\<bar>) + \<bar>mant e a\<bar>
      \<and> (\<Sum>v\<leftarrow>map snd (dict_set d k (fl_add (dict_get d k (Fin 0)) a)). mant e v)
          = (\<Sum>v\<leftarrow>map snd d. mant e v) + mant e a"
proof (induction d)
  case Nil
  have "fl_add (Fin 0) a = emb e (mant e a)"
    using fl_add_on_grid [OF assms(1,2) _ assms(3), of "Fin 0"] Nil by simp
  then show ?case by (simp add: dict_get_def)
next
  case (Cons p d)
  obtain k' v' where p: "p = (k', v')" by (cases p)
  have nn: "0 \<le> (\<Sum>v\<leftarrow>map snd d. \<bar>mant e v\<bar>)" by (rule sum_list_nonneg) auto
  have gv: "on_grid e v'" and gd: "list_all (on_grid e) (map snd d)"
    and bd: "\<bar>mant e v'\<bar> + (\<Sum>v\<leftarrow>map snd d. \<bar>mant e v\<bar>) + \<bar>mant e a\<bar> < 2 ^ 53"
    using Cons.prems by (simp_all add: p)
  show ?case
  proof (cases "k' = k")
    case True
    have "\<bar>mant e v'\<bar> + \<bar>mant e a\<bar> < 2 ^ 53" using bd nn by simp
    from fl_add_on_grid [OF assms(1,2) gv assms(3) this]
    have "fl_add v' a = emb e (mant e v' + mant e a)" .
    then show ?thesis using True gd by (simp add: p dict_get_def)
  next
    case False
    have g: "dict_get ((k', v') # d) k (Fin 0) = dict_get d k (Fin 0)"
      using False by (simp add: dict_get_def)
    have "(\<Sum>v\<leftarrow>map snd d. \<bar>mant e v\<bar>) + \<bar>mant e a\<bar> < 2 ^ 53"
      using bd by simp
    from Cons.IH [OF gd this] gv show ?thesis
      using False unfolding p g by simp
  qed
qed

lemma totals_exact:
  assumes "- 1074 \<le> e" "e \<le> 971"
  shows "list_all (\<lambda>r. on_grid e (amount r)) rows
    \<Longrightarrow> list_all (on_grid e) (map snd d)
    \<Longrightarrow> (\<Sum>v\<leftarrow>map snd d. \<bar>mant e v\<bar>) + (\<Sum>r\<leftarrow>rows. \<bar>mant e (amount r)\<bar>) < 2 ^ 53
    \<Longrightarrow> list_all (on_grid e) (map snd (foldl (\<lambda>totals r. dict_set totals (key r)
           (fl_add (dict_get totals (key r) (Fin 0)) (amount r))) d rows))
      \<and> (\<Sum>v\<leftarrow>map snd (foldl (\<lambda>totals r. dict_set totals (key r)
           (fl_add (dict_get totals (key r) (Fin 0)) (amount r))) d rows). \<bar>mant e v\<bar>)
          \<le> (\<Sum>v\<leftarrow>map snd d. \<bar>mant e v\<bar>) + (\<Sum>r\<leftarrow>rows. \<bar>mant e (amount r)\<bar>)
      \<and> (\<Sum>v\<leftarrow>map snd (foldl (\<lambda>totals r. dict_set totals (key r)
           (fl_add (dict_get totals (key r) (Fin 0)) (amount r))) d rows). mant e v)
          = (\<Sum>v\<leftarrow>map snd d. mant e v) + (\<Sum>r\<leftarrow>rows. mant e (amount r))"
proof (induction rows arbitrary: d)
  case Nil
  then show ?case by simp
next
  case (Cons r rows)
  let ?d' = "dict_set d (key r) (fl_add (dict_get d (key r) (Fin 0)) (amount r))"
  have r: "on_grid e (amount r)" and rs: "list_all (\<lambda>r. on_grid e (amount r)) rows"
    using Cons.prems(1) by simp_all
  have b: "(\<Sum>v\<leftarrow>map snd d. \<bar>mant e v\<bar>) + \<bar>mant e (amount r)\<bar> < 2 ^ 53"
    using Cons.prems(3) sum_list_abs_nonneg [of "\<lambda>r. mant e (amount r)" rows] by simp
  from totals_step_exact [OF assms r Cons.prems(2) b, of "key r"]
  have s1: "list_all (on_grid e) (map snd ?d')"
    and s2: "(\<Sum>v\<leftarrow>map snd ?d'. \<bar>mant e v\<bar>) \<le> (\<Sum>v\<leftarrow>map snd d. \<bar>mant e v\<bar>) + \<bar>mant e (amount r)\<bar>"
    and s3: "(\<Sum>v\<leftarrow>map snd ?d'. mant e v) = (\<Sum>v\<leftarrow>map snd d. mant e v) + mant e (amount r)"
    by simp_all
  have b': "(\<Sum>v\<leftarrow>map snd ?d'. \<bar>mant e v\<bar>) + (\<Sum>r\<leftarrow>rows. \<bar>mant e (amount r)\<bar>) < 2 ^ 53"
    using s2 Cons.prems(3) by simp
  from Cons.IH [OF rs s1 b'] s2 s3 show ?case by simp
qed

lemma sum_aggregate_exact:
  assumes "exact_rows e rows"
    and agg: "mset agg = mset (foldl (\<lambda>totals r. dict_set totals (key r)
           (fl_add (dict_get totals (key r) (Fin 0)) (amount r))) [] rows)"
  shows "py_sum (map snd agg) = py_sum (map amount rows)"
proof -
  let ?t = "foldl (\<lambda>totals r. dict_set totals (key r)
           (fl_add (dict_get totals (key r) (Fin 0)) (amount r))) [] rows"
  have e: "- 1074 \<le> e" "e \<le> 971" and g: "list_all (\<lambda>r. on_grid e (amount r)) rows"
    and b: "(\<Sum>r\<leftarrow>rows. \<bar>mant e (amount r)\<bar>) < 2 ^ 53"
    using assms(1) by (simp_all add: exact_rows_def)
  from totals_exact [OF e g, of "[]" key] b
  have t1: "list_all (on_grid e) (map snd ?t)"
    and t2: "(\<Sum>v\<leftarrow>map snd ?t. \<bar>mant e v\<bar>) \<le> (\<Sum>r\<leftarrow>rows. \<bar>mant e (amount r)\<bar>)"
    and t3: "(\<Sum>v\<leftarrow>map snd ?t. mant e v) = (\<Sum>r\<leftarrow>rows. mant e (amount r))"
    by simp_all
  have m: "mset (map snd agg) = mset (map snd ?t)"
    unfolding mset_map by (simp only: agg)
  have "set (map snd agg) = set (map snd ?t)" using m by (rule mset_eq_setD)
  then have a1: "list_all (on_grid e) (map snd agg)"
    using t1 by (simp only: list_all_iff)
  have a2: "(\<Sum>v\<leftarrow>map snd agg. \<bar>mant e v\<bar>) = (\<Sum>v\<leftarrow>map snd ?t. \<bar>mant e v\<bar>)"
    using m by (rule sum_list_mset_cong)
  have a3: "(\<Sum>v\<leftarrow>map snd agg. mant e v) = (\<Sum>v\<leftarrow>map snd ?t. mant e v)"
    using m by (rule sum_list_mset_cong)
  have "py_sum (map snd agg) = emb e (\<Sum>v\<leftarrow>map snd agg. mant e v)"
    using a2 t2 b by (intro py_sum_exact [OF e a1]) simp
  also have "\<dots> = emb e (\<Sum>r\<leftarrow>rows. mant e (amount r))" by (simp only: a3 t3)
  also have "\<dots> = py_sum (map amount rows)"
  proof -
    have "list_all (on_grid e) (map amount rows)" using g by (simp add: list_all_iff)
    moreover have "(\<Sum>v\<leftarrow>map amount rows. \<bar>mant e v\<bar>) < 2 ^ 53"
      using b by (simp add: comp_def)
    ultimately have "py_sum (map amount rows) = emb e (\<Sum>v\<leftarrow>map amount rows. mant e v)"
      by (rule py_sum_exact [OF e])
    then show ?thesis by (simp add: comp_def)
  qed
  finally show ?thesis .
qed

text \<open>
  Claim C2, as the code has it. When no addition rounds (all amounts are integer
  multiples of one power of two, and the integers are small enough), the sum of the
  by-SKU totals, the sum of the by-date totals and the grand total of the \<open>TOTAL\<close> line
  are equal.
\<close>

theorem sums_agree_when_exact:
  assumes "exact_rows e rows"
  shows "py_sum (map snd (aggregate_by_sku rows)) = py_sum (map amount rows)
       \<and> py_sum (map snd (aggregate_by_date rows)) = py_sum (map amount rows)"
proof
  show "py_sum (map snd (aggregate_by_sku rows)) = py_sum (map amount rows)"
    by (rule sum_aggregate_exact [OF assms, of _ sku])
       (simp add: aggregate_by_sku_def mset_sorted_py totals_by_sku_def)
  show "py_sum (map snd (aggregate_by_date rows)) = py_sum (map amount rows)"
    by (rule sum_aggregate_exact [OF assms, of _ dt])
       (simp add: aggregate_by_date_def mset_sorted_py totals_by_date_def)
qed

lemma happy_exact: "exact_rows (- 1) happy_path_rows"
  by code_simp

theorem sums_agree_when_exact_witness:
  "exact_rows (- 1) happy_path_rows
   \<and> py_sum (map snd (aggregate_by_sku happy_path_rows)) = Fin 48
   \<and> py_sum (map snd (aggregate_by_date happy_path_rows)) = Fin 48
   \<and> py_sum (map amount happy_path_rows) = Fin 48"
  using sums_agree_when_exact [OF happy_exact] happy_exact by (simp add: happy_sum)

lemma fl_round_2p53:
  "fl_round 9007199254740992 = Fin 9007199254740992"
  "fl_round 9007199254740994 = Fin 9007199254740994"
  using fl_round_exact' [of 9007199254740992 4503599627370496 1]
    fl_round_exact' [of 9007199254740994 4503599627370497 1]
  by (simp_all add: pow2_def)

lemma fl_round_1: "fl_round 1 = Fin 1"
  using fl_round_exact' [of 1 1 0] by (simp add: pow2_def)

lemma fl_round_2p53_plus_1: "fl_round 9007199254740993 = Fin 9007199254740992"
proof -
  have 1: "ilog2 9007199254740993 = 53" by (rule ilog2_eqI) (simp_all add: pow2_def)
  have "\<lfloor>9007199254740993 / 2 :: rat\<rfloor> = 4503599627370496"
    by (rule floor_unique) simp_all
  then have 2: "round_half_even (9007199254740993 / pow2 1) = 4503599627370496"
    by (simp add: pow2_def round_half_even_def Let_def)
  have 3: "ilog2 9007199254740992 = 53" by (rule ilog2_eqI) (simp_all add: pow2_def)
  have 4: "rat_of_int 4503599627370496 * pow2 1 = 9007199254740992" by (simp add: pow2_def)
  show ?thesis
    by (simp add: fl_round_def Let_def 1 2 3 4 del: of_int_numeral)
qed

text \<open>
  Claim C2 as stated does not hold: with rounding the sums differ. \<open>2^53 + 1\<close> rounds to
  \<open>2^53\<close>, twice, in the only by-date total (and in the grand total), while the by-SKU
  totals \<open>2^53\<close> and \<open>2\<close> add up exactly.
  The two lists of totals are \<open>[2^53, 2]\<close> and \<open>[2^53]\<close>, so their sums differ however
  they are added.
\<close>

theorem sums_differ_by_rounding:
  "py_sum (map snd (aggregate_by_sku rounding_rows)) = Fin 9007199254740994
   \<and> py_sum (map snd (aggregate_by_date rounding_rows)) = Fin 9007199254740992
   \<and> py_sum (map amount rounding_rows) = Fin 9007199254740992
   \<and> py_sum (map snd (aggregate_by_sku rounding_rows))
       \<noteq> py_sum (map snd (aggregate_by_date rounding_rows))"
proof -
  note ev = fl_add_Fin fl_round_numeral fl_round_1 fl_round_2p53 fl_round_2p53_plus_1
  have t: "totals_by_sku rounding_rows = [(''A'', Fin 9007199254740992), (''B'', Fin 2)]"
    by (simp add: totals_by_sku_def rounding_rows_def dict_get_def ev)
  have a: "aggregate_by_sku rounding_rows = [(''A'', Fin 9007199254740992), (''B'', Fin 2)]"
    by (simp add: aggregate_by_sku_def t sorted_py_def tuple_lt_def fl_eq_def fl_lt_def fl_neg_def)
  have d: "aggregate_by_date rounding_rows = [(Date 2024 1 1, Fin 9007199254740992)]"
    by (simp add: aggregate_by_date_def totals_by_date_def sorted_py_def rounding_rows_def
        dict_get_def ev)
  have s: "py_sum (map amount rounding_rows) = Fin 9007199254740992"
    by (simp add: py_sum_def rounding_rows_def ev)
  have sa: "py_sum [Fin 9007199254740992, Fin 2] = Fin 9007199254740994"
    and sd: "py_sum [Fin 9007199254740992] = Fin 9007199254740992"
    by (simp_all add: py_sum_def ev)
  show ?thesis by (simp add: a d s sa sd)
qed

end
